theory Spec2Isabelle
  imports Complex_Main "HOL-Library.Word" "HOL-Library.Multiset"
begin

unbundle bit_operations_syntax

section \<open>BigInt128: four 32-bit limbs kept in 64-bit words\<close>

text \<open>
  The struct holds \<^verbatim>\<open>uint64_t data[4]\<close>, limb 0 least significant. The array is a
  list of 64-bit words; every value of the C++ type has exactly four entries
  (\<open>wf_BigInt128\<close>). The 8-entry scratch array \<^verbatim>\<open>product\<close> of \<^verbatim>\<open>square\<close> is a
  list as well, and all arithmetic on the entries is 64-bit arithmetic that wraps.
\<close>

record BigInt128 =
  data :: "64 word list"

definition wf_BigInt128 :: "BigInt128 \<Rightarrow> bool" where
  "wf_BigInt128 b = (length (data b) = 4)"

text \<open>\<^verbatim>\<open>static const uint64_t _2_32 = 1ULL << 32\<close>\<close>

definition two_32 :: "64 word" where
  "two_32 = push_bit 32 1"

text \<open>The constructor \<^verbatim>\<open>BigInt128(d0, d1, d2, d3)\<close>.\<close>

definition BigInt128_new :: "64 word \<Rightarrow> 64 word \<Rightarrow> 64 word \<Rightarrow> 64 word \<Rightarrow> BigInt128" where
  "BigInt128_new d0 d1 d2 d3 = \<lparr>data = [d0, d1, d2, d3]\<rparr>"

text \<open>
  The body of the inner loop of \<^verbatim>\<open>square\<close>:
  \<^verbatim>\<open>product[i + j] += data[i] * data[j]; product[i + j + 1] += product[i + j] >> 32;\<close>
  The entry \<^verbatim>\<open>product[i + j]\<close> keeps its upper half after the carry is added to
  its neighbour.
\<close>

definition square_step :: "64 word list \<Rightarrow> nat \<Rightarrow> nat \<Rightarrow> 64 word list \<Rightarrow> 64 word list" where
  "square_step d i j product =
     (let product = product[i + j := product ! (i + j) + d ! i * d ! j]
      in product[i + j + 1 := product ! (i + j + 1) + drop_bit 32 (product ! (i + j))])"

text \<open>
  \<^verbatim>\<open>square\<close>: both loops run over the indices 0 to 3, the outer one over \<open>i\<close>;
  then the low halves of the first four entries are stored back.
\<close>

definition square_product :: "64 word list \<Rightarrow> 64 word list" where
  "square_product d =
     fold (\<lambda>i. fold (square_step d i) [0, 1, 2, 3]) [0, 1, 2, 3] (replicate 8 0)"

definition BigInt128_square :: "BigInt128 \<Rightarrow> BigInt128" where
  "BigInt128_square b =
     (let product = square_product (data b)
      in b\<lparr>data := map (\<lambda>i. product ! i AND 0xFFFFFFFF) [0, 1, 2, 3]\<rparr>)"

text \<open>
  One round of the loop of \<^verbatim>\<open>mod\<close>, on the 128-bit accumulator:
  \<^verbatim>\<open>res = ((res * _2_32) % n + data[i] % n) % n\<close>. The operands \<^verbatim>\<open>_2_32\<close> and
  \<^verbatim>\<open>n\<close> are widened to 128 bits; \<^verbatim>\<open>data[i] % n\<close> is computed on 64 bits and
  widened afterwards.
\<close>

definition mod_step :: "64 word \<Rightarrow> 64 word \<Rightarrow> 128 word \<Rightarrow> 128 word" where
  "mod_step n limb res = ((res * ucast two_32) mod ucast n + ucast (limb mod n)) mod ucast n"

text \<open>
  \<^verbatim>\<open>mod(n)\<close>. The guard compares the limbs with the two halves of \<open>n\<close>; when it
  does not hold the struct is left as it is. The loop runs over the indices 3 down
  to 0. A remainder by \<open>n = 0\<close> is a division by zero in C++: the model has no result
  there (\<open>None\<close>).
\<close>

definition BigInt128_mod :: "BigInt128 \<Rightarrow> 64 word \<Rightarrow> BigInt128 option" where
  "BigInt128_mod b n =
     (let d = data b; p1 = drop_bit 32 n; p2 = n mod two_32 in
      if d ! 3 > 0 \<or> d ! 2 > 0 \<or> d ! 1 > p1 \<or> (d ! 1 = p1 \<and> d ! 0 > p2) then
        if n = 0 then None
        else
          let res = fold (\<lambda>i. mod_step n (d ! i)) [3, 2, 1, 0] 0
          in Some (b\<lparr>data := [ucast (res AND 0xFFFFFFFF), ucast (drop_bit 32 res), 0, 0]\<rparr>)
      else Some b)"

text \<open>The number a struct stands for, and the limb invariant of the specification.\<close>

definition value_of :: "BigInt128 \<Rightarrow> nat" where
  "value_of b = (\<Sum>i \<leftarrow> [0, 1, 2, 3]. unat (data b ! i) * 2 ^ (32 * i))"

definition limbs_ok :: "BigInt128 \<Rightarrow> bool" where
  "limbs_ok b = (wf_BigInt128 b \<and> list_all (\<lambda>w. unat w < 2 ^ 32) (data b))"

section \<open>The 64-bit reals of the generator\<close>

text \<open>
  \<^verbatim>\<open>real_t\<close> is \<^verbatim>\<open>double\<close>. A finite double is a real number \<open>m * 2 ^ e\<close> with
  \<open>\<bar>m\<bar> < 2 ^ 53\<close> and \<open>e \<ge> - 1074\<close>, below \<open>2 ^ 1024\<close> in magnitude. Every
  arithmetic operation of the source on \<^verbatim>\<open>real_t\<close> is the exact operation on the
  reals followed by rounding to the nearest such number, ties to the even
  significand (the default rounding of IEEE 754 binary64). Values are kept as
  reals; \<open>rd\<close> is the rounding, with the subnormal range included. A result of
  magnitude \<open>2 ^ 1024\<close> or more is an infinity in C++: the functions below test
  \<open>finite_double\<close> wherever that can happen and stop with \<open>Not_Finite\<close>, so the
  model describes runs on finite values only.
\<close>

definition emin :: int where
  "emin = - 1022"

text \<open>Nearest integer, a tie going to the even neighbour.\<close>

definition round_even :: "real \<Rightarrow> int" where
  "round_even x =
     (let f = \<lfloor>x\<rfloor>; r = x - of_int f in
      if r < 1 / 2 then f else if 1 / 2 < r then f + 1 else if even f then f else f + 1)"

text \<open>
  The exponent of the last place of the binade of \<open>x\<close>: 52 below the exponent of
  \<open>x\<close>, and \<open>- 1074\<close> throughout the subnormal range.
\<close>

definition exponent :: "real \<Rightarrow> int" where
  "exponent x = max \<lfloor>log 2 \<bar>x\<bar>\<rfloor> emin - 52"

definition rd :: "real \<Rightarrow> real" where
  "rd x = (if x = 0 then 0 else of_int (round_even (x / 2 powi exponent x)) * 2 powi exponent x)"

definition representable :: "real \<Rightarrow> bool" where
  "representable x = (\<exists>m e. \<bar>m\<bar> < 2 ^ 53 \<and> emin - 52 \<le> e \<and> x = of_int m * 2 powi e)"

definition finite_double :: "real \<Rightarrow> bool" where
  "finite_double x = (\<bar>x\<bar> < 2 powi 1024)"

definition is_double :: "real \<Rightarrow> bool" where
  "is_double x = (representable x \<and> finite_double x)"

definition fadd :: "real \<Rightarrow> real \<Rightarrow> real" where
  "fadd a b = rd (a + b)"

definition fsub :: "real \<Rightarrow> real \<Rightarrow> real" where
  "fsub a b = rd (a - b)"

definition fmul :: "real \<Rightarrow> real \<Rightarrow> real" where
  "fmul a b = rd (a * b)"

definition fdiv :: "real \<Rightarrow> real \<Rightarrow> real" where
  "fdiv a b = rd (a / b)"

section \<open>Generator: the sampling operations\<close>

text \<open>
  \<^verbatim>\<open>Generator<T>\<close> is a template over the unsigned integer type \<open>T\<close> of the raw
  values (``usually 32 or 64 bit''); \<open>T\<close> is \<open>'a word\<close>. The pure virtual
  \<^verbatim>\<open>generate()\<close> is the only source of raw values, so a run of a member function
  is described relative to the values \<^verbatim>\<open>generate()\<close> hands out, taken from the
  front of a list; the rest of the list is the state after the call. A loop that
  asks for more values than the list holds stops with \<open>Draws_Exhausted\<close>: about
  such a run (the loop has not ended on the values given) nothing is said.

  The other ways a run ends without a value: \<open>Invalid_Argument\<close> is the
  \<^verbatim>\<open>std::invalid_argument\<close> thrown by the weighted \<^verbatim>\<open>choice\<close>; \<open>Undefined_Read\<close> is a
  read outside the sequence or the vector, \<open>Undefined_Cast\<close> a conversion of a
  \<^verbatim>\<open>double\<close> that does not fit \<^verbatim>\<open>int64_t\<close>, \<open>Undefined_Increment\<close> an overflow of the
  \<^verbatim>\<open>int\<close> loop counter (all three undefined behaviour in C++, where no error is
  signalled); \<open>Not_Finite\<close> is explained above.
\<close>

datatype stop =
    Invalid_Argument
  | Undefined_Read
  | Undefined_Cast
  | Undefined_Increment
  | Not_Finite
  | Draws_Exhausted

type_synonym ('a, 'r) run = "'a word list \<Rightarrow> (stop + 'r) \<times> 'a word list"

text \<open>Conversion of a value of \<open>T\<close> to \<^verbatim>\<open>real_t\<close>, rounding when it has more than 53 bits.\<close>

definition of_T :: "'a::len word \<Rightarrow> real" where
  "of_T g = rd (real (unat g))"

text \<open>
  \<^verbatim>\<open>generate() / real_t(std::numeric_limits<T>().max())\<close>: the value that one
  round of the loop of \<^verbatim>\<open>next_unit\<close> assigns to \<open>x\<close>. The largest value of \<open>T\<close> is
  the word \<open>- 1\<close>.
\<close>

definition unit_candidate :: "'a::len word \<Rightarrow> real" where
  "unit_candidate g = fdiv (of_T g) (of_T (- 1 :: 'a word))"

text \<open>
  \<^verbatim>\<open>next_unit\<close>: \<open>x\<close> starts as 1.0, so the loop body runs at least once; it runs
  again as long as the value just computed is 1.0.
\<close>

fun next_unit :: "('a::len, real) run" where
  "next_unit [] = (Inl Draws_Exhausted, [])"
| "next_unit (g # gs) =
     (let x = unit_candidate g in if x = 1 then next_unit gs else (Inr x, gs))"

text \<open>
  \<^verbatim>\<open>max - min + 1\<close> as a \<^verbatim>\<open>real_t\<close>. For \<open>T\<close> of 32 bits or more the expression is
  computed in \<open>T\<close> and wraps; a narrower \<open>T\<close> is promoted to \<^verbatim>\<open>int\<close>, where it does
  not.
\<close>

definition range_size :: "'a::len word \<Rightarrow> 'a word \<Rightarrow> real" where
  "range_size mn mx =
     (if LENGTH('a) < 32 then rd (of_int (uint mx - uint mn + 1)) else of_T (mx - mn + 1))"

text \<open>
  \<^verbatim>\<open>next_in_range\<close>: \<^verbatim>\<open>(int64_t)floor(next_unit() * (max - min + 1)) + min\<close>. The
  floor is converted to \<^verbatim>\<open>int64_t\<close>, which is undefined unless it fits; the sum
  with \<open>min\<close> is formed on 64 bits and returned as an \<^verbatim>\<open>int64_t\<close>, read with \<open>sint\<close>.
\<close>

definition next_in_range :: "'a::len word \<Rightarrow> 'a word \<Rightarrow> ('a, 64 word) run" where
  "next_in_range mn mx gs =
     (case next_unit gs of
        (Inl e, gs') \<Rightarrow> (Inl e, gs')
      | (Inr u, gs') \<Rightarrow>
          (let p = \<lfloor>fmul u (range_size mn mx)\<rfloor> in
           if p < - (2 ^ 63) \<or> 2 ^ 63 \<le> p then (Inl Undefined_Cast, gs')
           else (Inr (word_of_int p + ucast mn), gs')))"

lemma next_unit_length:
  "next_unit gs = (r, gs') \<Longrightarrow> gs \<noteq> [] \<Longrightarrow> length gs' < length gs"
proof (induction gs)
  case (Cons g gs)
  then show ?case
    by (cases gs) (auto simp: Let_def split: if_splits)
qed simp

text \<open>
  \<^verbatim>\<open>next_in_crange\<close>: \<open>x\<close> starts as \<open>max\<close>, so the body runs at least once; each
  round computes \<^verbatim>\<open>(max - min) * next_unit() + min\<close> and the loop runs again as
  long as that value is \<open>max\<close>.
\<close>

function next_in_crange :: "real \<Rightarrow> real \<Rightarrow> ('a::len, real) run" where
  "next_in_crange mn mx gs =
     (case next_unit gs of
        (Inl e, gs') \<Rightarrow> (Inl e, gs')
      | (Inr u, gs') \<Rightarrow>
          (let d = fsub mx mn; x = fadd (fmul d u) mn in
           if \<not> (finite_double d \<and> finite_double x) then (Inl Not_Finite, gs')
           else if x = mx then next_in_crange mn mx gs'
           else (Inr x, gs')))"
  by pat_completeness auto
termination
proof (relation "measure (\<lambda>(mn, mx, gs). length gs)")
  show "wf (measure (\<lambda>(mn, mx, gs). length gs))" by simp
next
  fix mn mx :: real and gs :: "'a word list" and r gs' u
  assume "(r, gs') = next_unit gs" "r = Inr u"
  then have "gs \<noteq> [] \<longrightarrow> length gs' < length gs"
    using next_unit_length[of gs r gs'] by simp
  moreover have "gs \<noteq> []" using \<open>(r, gs') = next_unit gs\<close> \<open>r = Inr u\<close> by (cases gs) auto
  ultimately show "((mn, mx, gs'), (mn, mx, gs)) \<in> measure (\<lambda>(mn, mx, gs). length gs)"
    by simp
qed

text \<open>
  The unweighted \<^verbatim>\<open>choice(first, last)\<close>:
  \<^verbatim>\<open>*(first + next_in_range(0, last - first - 1))\<close>. The sequence between the two
  iterators is the list \<open>xs\<close>; \<^verbatim>\<open>last - first - 1\<close> is converted to \<open>T\<close>. There is no
  test of the length; the read is defined only inside the sequence.
\<close>

definition choice :: "'e list \<Rightarrow> ('a::len, 'e) run" where
  "choice xs gs =
     (case next_in_range 0 (word_of_int (int (length xs) - 1)) gs of
        (Inl e, gs') \<Rightarrow> (Inl e, gs')
      | (Inr r, gs') \<Rightarrow>
          if 0 \<le> sint r \<and> sint r < int (length xs) then (Inr (xs ! nat (sint r)), gs')
          else (Inl Undefined_Read, gs'))"

text \<open>
  The weighted \<^verbatim>\<open>choice\<close>, for weights of type \<^verbatim>\<open>real_t\<close>. The loop that fills
  \<^verbatim>\<open>cumulative_weights\<close> starts from \<open>prev = 0\<close>:
\<close>

fun cumulative :: "real \<Rightarrow> real list \<Rightarrow> real list" where
  "cumulative prev [] = []"
| "cumulative prev (w # ws) = (let c = fadd prev w in c # cumulative c ws)"

text \<open>
  \<^verbatim>\<open>std::upper_bound(first, last, value)\<close> of the C++ standard library, as its
  implementations have it: a binary search on the range of \<open>len\<close> entries from
  index \<open>first\<close>, comparing \<^verbatim>\<open>value < *middle\<close>; the result is an index between 0
  and the length.
\<close>

function upper_bound_from :: "real list \<Rightarrow> real \<Rightarrow> nat \<Rightarrow> nat \<Rightarrow> nat" where
  "upper_bound_from xs v first len =
     (if len = 0 then first
      else
        let half = len div 2; middle = first + half in
        if v < xs ! middle then upper_bound_from xs v first half
        else upper_bound_from xs v (middle + 1) (len - half - 1))"
  by pat_completeness auto
termination
  by (relation "measure (\<lambda>(xs, v, first, len). len)") auto

definition upper_bound :: "real list \<Rightarrow> real \<Rightarrow> nat" where
  "upper_bound xs v = upper_bound_from xs v 0 (length xs)"

text \<open>\<^verbatim>\<open>next_unit() * cumulative_weights[last - first - 1]\<close>\<close>

definition weighted_draw :: "real list \<Rightarrow> real \<Rightarrow> real" where
  "weighted_draw cw x = fmul x (cw ! (length cw - 1))"

text \<open>
  The two tests come first and throw; then the cumulative weights are filled,
  \<^verbatim>\<open>next_unit\<close> is called once, and the entry of the sequence at the index found
  by \<^verbatim>\<open>std::upper_bound\<close> is read. That index can be the length of the sequence.
\<close>

definition choice_weighted :: "'e list \<Rightarrow> real list \<Rightarrow> ('a::len, 'e) run" where
  "choice_weighted xs ws gs =
     (if length xs \<noteq> length ws then (Inl Invalid_Argument, gs)
      else if xs = [] then (Inl Invalid_Argument, gs)
      else
        let cw = cumulative 0 ws in
        if \<not> list_all finite_double cw then (Inl Not_Finite, gs)
        else
          case next_unit gs of
            (Inl e, gs') \<Rightarrow> (Inl e, gs')
          | (Inr x, gs') \<Rightarrow>
              (let k = upper_bound cw (weighted_draw cw x) in
               if k < length xs then (Inr (xs ! k), gs') else (Inl Undefined_Read, gs')))"

text \<open>
  The second loop of \<^verbatim>\<open>shuffle_array\<close>, from the counter \<open>i\<close> on:
  \<^verbatim>\<open>ind = next_in_range(0, len - i - 1); arr[i] = v[ind]; v.erase(v.begin() + ind);\<close>
  The result of \<^verbatim>\<open>next_in_range\<close> is converted to \<open>T\<close>; \<^verbatim>\<open>v[ind]\<close> is defined only
  inside the vector.
\<close>

function shuffle_loop :: "nat \<Rightarrow> 'a::len word \<Rightarrow> 'e list \<Rightarrow> 'e list \<Rightarrow> ('a, 'e list) run" where
  "shuffle_loop i len arr v gs =
     (if i < unat len then
        case next_in_range 0 (len - of_nat i - 1) gs of
          (Inl e, gs') \<Rightarrow> (Inl e, gs')
        | (Inr r, gs') \<Rightarrow>
            (let ind = unat (ucast r :: 'a word) in
             if ind < length v
             then shuffle_loop (i + 1) len (arr[i := v ! ind]) (take ind v @ drop (ind + 1) v) gs'
             else (Inl Undefined_Read, gs'))
      else (Inr arr, gs))"
  by pat_completeness auto
termination
  by (relation "measure (\<lambda>(i, len, arr, v, gs). unat len - i)") auto

text \<open>
  \<^verbatim>\<open>shuffle_array(arr, len)\<close>: the first loop copies the first \<open>len\<close> entries of
  \<open>arr\<close> into the vector \<open>v\<close>. Both loops count with an \<^verbatim>\<open>int\<close>, which overflows
  before it reaches a \<open>len\<close> of \<open>2 ^ 31\<close> or more.
\<close>

definition shuffle_array :: "'e list \<Rightarrow> 'a::len word \<Rightarrow> ('a, 'e list) run" where
  "shuffle_array arr len gs =
     (if 2 ^ 31 \<le> unat len then (Inl Undefined_Increment, gs)
      else shuffle_loop 0 len arr (take (unat len) arr) gs)"

text \<open>
  \<^verbatim>\<open>shuffle(first, last)\<close> copies the sequence into \<^verbatim>\<open>temp\<close>, calls
  \<^verbatim>\<open>shuffle_array(temp, last - first)\<close> (the length converted to \<open>T\<close>) and copies
  \<^verbatim>\<open>temp\<close> back; the result is the sequence afterwards.
\<close>

definition shuffle :: "'e list \<Rightarrow> ('a::len, 'e list) run" where
  "shuffle xs gs = shuffle_array xs (of_nat (length xs)) gs"

section \<open>Results about BigInt128\<close>

text \<open>
  \<^verbatim>\<open>mod\<close> on limbs below \<open>2 ^ 32\<close> and \<open>n \<noteq> 0\<close>: the guard holds exactly when the
  value is greater than \<open>n\<close>; then the loop leaves the value modulo \<open>n\<close> in the
  two low limbs, again below \<open>2 ^ 32\<close>, and zeroes the two high ones
  (\<open>BigInt128_mod_correct\<close>). A value of at most \<open>n\<close> is left as it is, which is
  the remainder for a value below \<open>n\<close>.
\<close>

lemma unat_two_32: "unat two_32 = 2 ^ 32"
  by (simp add: two_32_def)

lemma unat_ucast_64_128: "unat (ucast (w :: 64 word) :: 128 word) = unat w"
proof -
  have "unat w < 2 ^ 128"
    using unsigned_less[of w, where 'a = nat] by (simp add: order_less_trans)
  then show ?thesis
    by (simp add: unsigned_ucast_eq take_bit_nat_eq_self)
qed

lemma unat_lt_2_64: "unat (w :: 64 word) < 2 ^ 64"
  using unsigned_less[of w, where 'a = nat] by simp

lemma mod_step_unat:
  assumes "n \<noteq> 0" "unat res < unat n"
  shows "unat (mod_step n limb res) = (unat res * 2 ^ 32 + unat limb) mod unat n"
proof -
  define N where "N = unat n"
  have N: "0 < N" "N < 2 ^ 64"
    using assms(1) unat_lt_2_64[of n] by (simp_all add: N_def unat_gt_0)
  have r: "unat res < N" using assms(2) by (simp add: N_def)
  have un: "unat (ucast n :: 128 word) = N"
    by (simp add: N_def unat_ucast_64_128 del: of_nat_unat)
  have u32: "unat (ucast two_32 :: 128 word) = 2 ^ 32"
    using unat_ucast_64_128[of two_32] by (simp add: unat_two_32)
  have "unat res * 2 ^ 32 < 2 ^ 64 * 2 ^ 32"
    using r N by (intro mult_strict_right_mono) simp_all
  then have "unat res * unat (ucast two_32 :: 128 word) < 2 ^ LENGTH(128)"
    unfolding u32 by simp
  then have "unat (res * (ucast two_32 :: 128 word)) = unat res * unat (ucast two_32 :: 128 word)"
    by (rule unat_mult_lem[THEN iffD1])
  then have m: "unat (res * ucast two_32) = unat res * 2 ^ 32"
    by (simp only: u32)
  have a: "unat ((res * ucast two_32) mod ucast n) = (unat res * 2 ^ 32) mod N"
    by (simp only: unat_mod m un)
  have b: "unat (ucast (limb mod n) :: 128 word) = unat limb mod N"
    by (simp only: unat_ucast_64_128 unat_mod N_def)
  have "(unat res * 2 ^ 32) mod N + unat limb mod N < N + N"
    using N(1) by (intro add_strict_mono) simp_all
  then have "unat ((res * ucast two_32) mod ucast n) + unat (ucast (limb mod n) :: 128 word)
      < 2 ^ LENGTH(128)"
    unfolding a b using N(2) by simp
  then have "unat ((res * ucast two_32) mod ucast n + ucast (limb mod n))
      = unat ((res * ucast two_32) mod ucast n) + unat (ucast (limb mod n) :: 128 word)"
    by (rule unat_add_lem[THEN iffD1])
  then have s: "unat ((res * ucast two_32) mod ucast n + ucast (limb mod n))
      = (unat res * 2 ^ 32) mod N + unat limb mod N"
    by (simp only: a b)
  have "unat (mod_step n limb res) = ((unat res * 2 ^ 32) mod N + unat limb mod N) mod N"
    unfolding mod_step_def by (simp only: unat_mod s un)
  also have "\<dots> = (unat res * 2 ^ 32 + unat limb) mod N"
    by (rule mod_add_eq)
  finally show ?thesis by (simp add: N_def)
qed

lemma low_limb_unat: "unat (ucast ((res :: 128 word) AND 0xFFFFFFFF) :: 64 word) = unat res mod 2 ^ 32"
proof -
  have "(0xFFFFFFFF :: 128 word) = mask 32" by (simp add: mask_eq_exp_minus_1)
  then have "res AND 0xFFFFFFFF = take_bit 32 res" by (simp add: take_bit_eq_mask)
  then have "unat (res AND 0xFFFFFFFF) = unat res mod 2 ^ 32"
    by (simp add: unsigned_take_bit_eq take_bit_eq_mod unat_mod)
  moreover have "unat res mod 2 ^ 32 < 2 ^ 64"
    by (rule order_less_trans[of _ "2 ^ 32"]) simp_all
  ultimately show ?thesis
    by (simp add: unsigned_ucast_eq take_bit_nat_eq_self)
qed

lemma high_limb_unat:
  assumes "unat (res :: 128 word) < 2 ^ 64"
  shows "unat (ucast (drop_bit 32 res) :: 64 word) = unat res div 2 ^ 32"
proof -
  have "unat (drop_bit 32 res) = unat res div 2 ^ 32"
    by (simp add: unat_drop_bit_eq drop_bit_eq_div unat_div)
  moreover have "unat res div 2 ^ 32 < 2 ^ 64"
    using assms by (simp add: less_mult_imp_div_less)
  ultimately show ?thesis
    by (simp add: unsigned_ucast_eq take_bit_nat_eq_self)
qed

lemma guard_arith:
  fixes v0 v1 v2 v3 N :: nat
  assumes "v0 < 2 ^ 32" "v1 < 2 ^ 32" "v2 < 2 ^ 32" "v3 < 2 ^ 32" "N < 2 ^ 64"
  shows "(0 < v3 \<or> 0 < v2 \<or> N div 2 ^ 32 < v1 \<or> (v1 = N div 2 ^ 32 \<and> N mod 2 ^ 32 < v0))
    \<longleftrightarrow> N < v0 + v1 * 2 ^ 32 + v2 * 2 ^ 64 + v3 * 2 ^ 96"
proof -
  define q1 where "q1 = N div 2 ^ 32"
  define q2 where "q2 = N mod 2 ^ 32"
  have N: "N = q1 * 4294967296 + q2" and q2: "q2 < 4294967296"
    by (simp_all add: q1_def q2_def)
  show ?thesis
    unfolding q1_def[symmetric] q2_def[symmetric]
    using assms N q2 by simp linarith
qed

lemma horner_mod:
  fixes v0 v1 v2 v3 N :: nat
  shows "((((0 * 2 ^ 32 + v3) mod N * 2 ^ 32 + v2) mod N * 2 ^ 32 + v1) mod N * 2 ^ 32 + v0) mod N
    = (v0 + v1 * 2 ^ 32 + v2 * 2 ^ 64 + v3 * 2 ^ 96) mod N"
proof -
  have step: "\<And>a c :: nat. (a mod N * 2 ^ 32 + c) mod N = (a * 2 ^ 32 + c) mod N"
    by (metis mod_add_left_eq mod_mult_left_eq)
  have "((((0 * 2 ^ 32 + v3) mod N * 2 ^ 32 + v2) mod N * 2 ^ 32 + v1) mod N * 2 ^ 32 + v0) mod N
    = (((v3 * 2 ^ 32 + v2) * 2 ^ 32 + v1) * 2 ^ 32 + v0) mod N"
    by (simp only: step add_0 mult_zero_left)
  also have "((v3 * 2 ^ 32 + v2) * 2 ^ 32 + v1) * 2 ^ 32 + v0
    = v0 + v1 * 2 ^ 32 + v2 * 2 ^ 64 + v3 * 2 ^ 96"
    by simp
  finally show ?thesis .
qed

lemma value_of_new:
  "value_of (BigInt128_new d0 d1 d2 d3)
     = unat d0 + unat d1 * 2 ^ 32 + unat d2 * 2 ^ 64 + unat d3 * 2 ^ 96"
  by (simp add: value_of_def BigInt128_new_def)

lemma mod_guard_iff:
  assumes "unat d0 < 2 ^ 32" "unat d1 < 2 ^ 32" "unat d2 < 2 ^ 32" "unat d3 < 2 ^ 32"
  shows "(0 < d3 \<or> 0 < d2 \<or> drop_bit 32 n < d1 \<or> (d1 = drop_bit 32 n \<and> n mod two_32 < d0))
    \<longleftrightarrow> unat (n :: 64 word) < value_of (BigInt128_new d0 d1 d2 d3)"
proof -
  have p1: "unat (drop_bit 32 n) = unat n div 2 ^ 32"
    by (simp add: unat_drop_bit_eq drop_bit_eq_div unat_div)
  have p2: "unat (n mod two_32) = unat n mod 2 ^ 32"
    by (simp only: unat_mod unat_two_32)
  have "(0 < d3 \<or> 0 < d2 \<or> drop_bit 32 n < d1 \<or> (d1 = drop_bit 32 n \<and> n mod two_32 < d0))
    \<longleftrightarrow> (0 < unat d3 \<or> 0 < unat d2 \<or> unat n div 2 ^ 32 < unat d1
        \<or> (unat d1 = unat n div 2 ^ 32 \<and> unat n mod 2 ^ 32 < unat d0))"
    by (simp only: word_less_nat_alt word_unat_eq_iff p1 p2 unsigned_0)
  also have "\<dots> \<longleftrightarrow> unat n < unat d0 + unat d1 * 2 ^ 32 + unat d2 * 2 ^ 64 + unat d3 * 2 ^ 96"
    using assms unat_lt_2_64[of n] by (rule guard_arith)
  finally show ?thesis by (simp only: value_of_new)
qed

lemma mod_loop_unat:
  assumes "n \<noteq> 0"
  shows "unat (fold (\<lambda>i. mod_step n ([d0, d1, d2, d3] ! i)) [3, 2, 1, 0] 0)
    = value_of (BigInt128_new d0 d1 d2 d3) mod unat n"
proof -
  define N where "N = unat n"
  have N: "0 < N" using assms by (simp add: N_def unat_gt_0)
  define r3 where "r3 = mod_step n d3 0"
  define r2 where "r2 = mod_step n d2 r3"
  define r1 where "r1 = mod_step n d1 r2"
  define r0 where "r0 = mod_step n d0 r1"
  have u3: "unat r3 = (0 * 2 ^ 32 + unat d3) mod N"
    unfolding r3_def N_def using assms by (subst mod_step_unat) (simp_all add: unat_gt_0)
  then have "unat r3 < unat n" using N by (simp add: N_def)
  then have u2: "unat r2 = (unat r3 * 2 ^ 32 + unat d2) mod N"
    unfolding r2_def N_def using assms by (intro mod_step_unat)
  then have "unat r2 < unat n" using N by (simp add: N_def)
  then have u1: "unat r1 = (unat r2 * 2 ^ 32 + unat d1) mod N"
    unfolding r1_def N_def using assms by (intro mod_step_unat)
  then have "unat r1 < unat n" using N by (simp add: N_def)
  then have u0: "unat r0 = (unat r1 * 2 ^ 32 + unat d0) mod N"
    unfolding r0_def N_def using assms by (intro mod_step_unat)
  have "fold (\<lambda>i. mod_step n ([d0, d1, d2, d3] ! i)) [3, 2, 1, 0] 0 = r0"
    by (simp add: r0_def r1_def r2_def r3_def)
  then show ?thesis
    unfolding value_of_new N_def[symmetric]
    by (simp only: u0 u1 u2 u3 horner_mod)
qed

lemma BigInt128_mod_slow:
  assumes "0 < d3 \<or> 0 < d2 \<or> drop_bit 32 n < d1 \<or> (d1 = drop_bit 32 n \<and> n mod two_32 < d0)"
    and "n \<noteq> 0"
  shows "BigInt128_mod (BigInt128_new d0 d1 d2 d3) n
    = Some (BigInt128_new
        (ucast (fold (\<lambda>i. mod_step n ([d0, d1, d2, d3] ! i)) [3, 2, 1, 0] 0 AND 0xFFFFFFFF))
        (ucast (drop_bit 32 (fold (\<lambda>i. mod_step n ([d0, d1, d2, d3] ! i)) [3, 2, 1, 0] 0)))
        0 0)"
  using assms by (auto simp: BigInt128_mod_def BigInt128_new_def Let_def)

lemma BigInt128_mod_fast:
  assumes "\<not> (0 < d3 \<or> 0 < d2 \<or> drop_bit 32 n < d1 \<or> (d1 = drop_bit 32 n \<and> n mod two_32 < d0))"
  shows "BigInt128_mod (BigInt128_new d0 d1 d2 d3) n = Some (BigInt128_new d0 d1 d2 d3)"
  using assms by (auto simp: BigInt128_mod_def BigInt128_new_def Let_def)

lemma BigInt128_mod_correct:
  assumes limbs: "unat d0 < 2 ^ 32" "unat d1 < 2 ^ 32" "unat d2 < 2 ^ 32" "unat d3 < 2 ^ 32"
    and n: "n \<noteq> 0"
  shows "value_of (BigInt128_new d0 d1 d2 d3) \<le> unat n
      \<Longrightarrow> BigInt128_mod (BigInt128_new d0 d1 d2 d3) n = Some (BigInt128_new d0 d1 d2 d3)"
    and "unat n < value_of (BigInt128_new d0 d1 d2 d3)
      \<Longrightarrow> \<exists>e0 e1. BigInt128_mod (BigInt128_new d0 d1 d2 d3) n = Some (BigInt128_new e0 e1 0 0)
          \<and> unat e0 < 2 ^ 32 \<and> unat e1 < 2 ^ 32
          \<and> value_of (BigInt128_new e0 e1 0 0) = value_of (BigInt128_new d0 d1 d2 d3) mod unat n"
proof -
  let ?b = "BigInt128_new d0 d1 d2 d3"
  let ?G = "0 < d3 \<or> 0 < d2 \<or> drop_bit 32 n < d1 \<or> (d1 = drop_bit 32 n \<and> n mod two_32 < d0)"
  have G: "?G \<longleftrightarrow> unat n < value_of ?b"
    using limbs by (rule mod_guard_iff)
  {
    assume "value_of ?b \<le> unat n"
    then have "\<not> ?G" using G by simp
    then show "BigInt128_mod ?b n = Some ?b"
      by (rule BigInt128_mod_fast)
  next
    assume gt: "unat n < value_of ?b"
    then have g: "?G" using G by simp
    define res where "res = fold (\<lambda>i. mod_step n ([d0, d1, d2, d3] ! i)) [3, 2, 1, 0] 0"
    define e0 :: "64 word" where "e0 = ucast (res AND 0xFFFFFFFF)"
    define e1 :: "64 word" where "e1 = ucast (drop_bit 32 res)"
    have r: "unat res = value_of ?b mod unat n"
      unfolding res_def using n by (rule mod_loop_unat)
    have "0 < unat n" using n by (simp add: unat_gt_0)
    then have "unat res < unat n" unfolding r by simp
    then have r64: "unat res < 2 ^ 64" using unat_lt_2_64[of n] by linarith
    have u0: "unat e0 = unat res mod 2 ^ 32"
      unfolding e0_def by (rule low_limb_unat)
    have u1: "unat e1 = unat res div 2 ^ 32"
      unfolding e1_def using r64 by (rule high_limb_unat)
    have "BigInt128_mod ?b n = Some (BigInt128_new e0 e1 0 0)"
      unfolding e0_def e1_def res_def using g n by (rule BigInt128_mod_slow)
    moreover have "unat e0 < 2 ^ 32" unfolding u0 by simp
    moreover have "unat e1 < 2 ^ 32"
      unfolding u1 using r64 by (simp add: less_mult_imp_div_less)
    moreover have "value_of (BigInt128_new e0 e1 0 0) = value_of ?b mod unat n"
    proof -
      have "value_of (BigInt128_new e0 e1 0 0) = unat e0 + unat e1 * 2 ^ 32"
        by (simp add: value_of_new)
      also have "\<dots> = unat res" by (simp add: u0 u1)
      finally show ?thesis by (simp only: r)
    qed
    ultimately show "\<exists>e0 e1. BigInt128_mod ?b n = Some (BigInt128_new e0 e1 0 0)
          \<and> unat e0 < 2 ^ 32 \<and> unat e1 < 2 ^ 32
          \<and> value_of (BigInt128_new e0 e1 0 0) = value_of ?b mod unat n"
      by blast
  }
qed

lemma mod_7_7: "BigInt128_mod (BigInt128_new 7 0 0 0) 7 = Some (BigInt128_new 7 0 0 0)"
  by code_simp

lemma value_of_7: "value_of (BigInt128_new 7 0 0 0) = 7"
  by (simp add: BigInt128_new_def value_of_def)

text \<open>
  Claim C2 (\<^verbatim>\<open>mod\<close> leaves the value reduced modulo \<open>n\<close>). The guard of \<^verbatim>\<open>mod\<close>
  tests for a value strictly greater than \<open>n\<close>, so a value equal to \<open>n\<close> takes the
  branch that changes nothing: for the limbs \<open>[7, 0, 0, 0]\<close> and \<open>n = 7\<close> the struct
  still holds 7 afterwards, where \<open>7 mod 7 = 0\<close>.
\<close>

theorem mod_equal_modulus_unchanged:
  "BigInt128_mod (BigInt128_new 7 0 0 0) 7 = Some (BigInt128_new 7 0 0 0)
   \<and> value_of (BigInt128_new 7 0 0 0) = 7
   \<and> value_of (BigInt128_new 7 0 0 0) mod 7 = 0"
  using mod_7_7 value_of_7 by simp

text \<open>
  \<^verbatim>\<open>square\<close> stores masked entries, so the limbs it leaves are below \<open>2 ^ 32\<close>
  whatever the input, and it is right on the example of the specification:
  \<open>5\<close> squared is \<open>25\<close>, and \<open>25 mod 7 = 4\<close>.
\<close>

lemma square_limbs_ok: "limbs_ok (BigInt128_square b)"
proof -
  have m: "unat (w AND 0xFFFFFFFF) < 4294967296" for w :: "64 word"
  proof -
    have "w AND 0xFFFFFFFF \<le> 0xFFFFFFFF" by (rule word_and_le1)
    then have "unat (w AND 0xFFFFFFFF) \<le> unat (0xFFFFFFFF :: 64 word)"
      by (simp only: word_le_nat_alt)
    then show ?thesis by simp
  qed
  show ?thesis
    by (simp add: limbs_ok_def wf_BigInt128_def BigInt128_square_def Let_def m)
qed

lemma square_5: "BigInt128_square (BigInt128_new 5 0 0 0) = BigInt128_new 25 0 0 0"
  by code_simp

lemma mod_25_7: "BigInt128_mod (BigInt128_new 25 0 0 0) 7 = Some (BigInt128_new 4 0 0 0)"
  by code_simp

lemma square_2_48: "BigInt128_square (BigInt128_new 0 65536 0 0) = BigInt128_new 0 0 0 2"
  by code_simp

lemma value_of_2_48: "value_of (BigInt128_new 0 65536 0 0) = 2 ^ 48"
  by (simp add: BigInt128_new_def value_of_def)

lemma value_of_2_97: "value_of (BigInt128_new 0 0 0 2) = 2 * 2 ^ 96"
  by (simp add: BigInt128_new_def value_of_def)

lemma square_of_2_48: "(2 ^ 48) ^ 2 mod 2 ^ 128 = (2 ^ 96 :: nat)"
  by simp

text \<open>
  Claim C3 (\<^verbatim>\<open>square\<close> leaves the square modulo \<open>2 ^ 128\<close>). An entry of
  \<^verbatim>\<open>product\<close> that is visited again hands its upper half to its neighbour a second
  time. For the limbs \<open>[0, 65536, 0, 0]\<close>, the number \<open>2 ^ 48\<close>, the square is
  \<open>2 ^ 96\<close>, limbs \<open>[0, 0, 0, 1]\<close>; the function leaves \<open>[0, 0, 0, 2]\<close>.
\<close>

theorem square_carry_counted_twice:
  "BigInt128_square (BigInt128_new 0 65536 0 0) = BigInt128_new 0 0 0 2
   \<and> value_of (BigInt128_new 0 65536 0 0) = 2 ^ 48
   \<and> value_of (BigInt128_new 0 0 0 2) = 2 * 2 ^ 96
   \<and> (2 ^ 48) ^ 2 mod 2 ^ 128 = (2 ^ 96 :: nat)"
  by (intro conjI square_2_48 value_of_2_48 value_of_2_97 square_of_2_48)

section \<open>Rounding to a double\<close>

text \<open>
  The facts about \<open>rd\<close> that the results below rest on: it is monotone, it
  leaves a representable number as it is and always yields one, and a product
  of a double of at least \<open>2 ^ - 1021\<close> with a factor of at most \<open>1 - 2 ^ - 53\<close>
  (the largest double below 1) rounds to a double strictly below the first.
\<close>

lemma round_even_of_int [simp]: "round_even (of_int k) = k"
  by (simp add: round_even_def)

lemma round_even_lower: "x - 1 / 2 \<le> of_int (round_even x)"
  unfolding round_even_def Let_def by (auto; linarith)

lemma round_even_upper: "of_int (round_even x) \<le> x + 1 / 2"
  unfolding round_even_def Let_def by (auto; linarith)

lemma round_even_below_half:
  assumes "of_int k \<le> x" "x < of_int k + 1 / 2"
  shows "round_even x = k"
proof -
  have "\<lfloor>x\<rfloor> = k" using assms by linarith
  then show ?thesis using assms by (simp add: round_even_def)
qed

lemma round_even_cases: "round_even x = \<lfloor>x\<rfloor> \<or> round_even x = \<lfloor>x\<rfloor> + 1"
  by (simp add: round_even_def Let_def)

lemma round_even_mono:
  assumes "x \<le> y"
  shows "round_even x \<le> round_even y"
proof -
  have le: "\<lfloor>x\<rfloor> \<le> \<lfloor>y\<rfloor>" using assms by (rule floor_mono)
  have ux: "round_even x \<le> \<lfloor>x\<rfloor> + 1" "\<lfloor>x\<rfloor> \<le> round_even x"
    and uy: "round_even y \<le> \<lfloor>y\<rfloor> + 1" "\<lfloor>y\<rfloor> \<le> round_even y"
    by (auto simp: round_even_def Let_def)
  show ?thesis
  proof (cases "\<lfloor>x\<rfloor> = \<lfloor>y\<rfloor>")
    case True
    then show ?thesis using assms
      by (auto simp: round_even_def Let_def)
  next
    case False
    then show ?thesis using le ux uy by linarith
  qed
qed

lemma round_even_minus: "round_even (- x) = - round_even x"
proof (cases "x = of_int \<lfloor>x\<rfloor>")
  case True
  then obtain k where "x = of_int k" ..
  then have "- x = of_int (- k)" by simp
  then show ?thesis unfolding \<open>x = of_int k\<close> by (metis round_even_of_int)
next
  case False
  then have f: "\<lfloor>- x\<rfloor> = - \<lfloor>x\<rfloor> - 1"
    by (metis ceiling_altdef ceiling_def add_diff_cancel_right' diff_minus_eq_add minus_diff_eq uminus_add_conv_diff)
  show ?thesis
    unfolding round_even_def Let_def f by (auto; linarith?)
qed

lemma round_even_nonneg: "0 \<le> x \<Longrightarrow> 0 \<le> round_even x"
  using round_even_mono[of 0 x] round_even_of_int[of 0] by simp

lemma floor_log2_iff:
  assumes "0 < x"
  shows "(\<lfloor>log 2 x\<rfloor> = k) = (2 powi k \<le> x \<and> x < 2 powi (k + 1))"
proof -
  have a: "(2::real) powr real_of_int k = 2 powi k"
    by (rule powr_real_of_int') simp_all
  have b: "(2::real) powr real_of_int (k + 1) = 2 powi (k + 1)"
    by (rule powr_real_of_int') simp_all
  have "(1::real) < 2" by simp
  from floor_log_eq_powr_iff[OF assms this, of k] show ?thesis
    unfolding a b .
qed

lemma floor_log2_bounds:
  assumes "0 < x"
  shows "2 powi \<lfloor>log 2 x\<rfloor> \<le> x" "x < 2 powi (\<lfloor>log 2 x\<rfloor> + 1)"
  using floor_log2_iff[OF assms, of "\<lfloor>log 2 x\<rfloor>"] by blast+

lemma le_floor_log2_iff:
  assumes "0 < x"
  shows "(k \<le> \<lfloor>log 2 x\<rfloor>) = (2 powi k \<le> x)"
proof
  assume "k \<le> \<lfloor>log 2 x\<rfloor>"
  then have "(2::real) powi k \<le> 2 powi \<lfloor>log 2 x\<rfloor>"
    by (intro power_int_increasing) simp_all
  then show "2 powi k \<le> x"
    using floor_log2_bounds(1)[OF assms] by linarith
next
  assume le: "2 powi k \<le> x"
  show "k \<le> \<lfloor>log 2 x\<rfloor>"
  proof (rule ccontr)
    assume "\<not> k \<le> \<lfloor>log 2 x\<rfloor>"
    then have "\<lfloor>log 2 x\<rfloor> + 1 \<le> k" by simp
    then have "(2::real) powi (\<lfloor>log 2 x\<rfloor> + 1) \<le> 2 powi k"
      by (intro power_int_increasing) simp_all
    then show False
      using floor_log2_bounds(2)[OF assms] le by linarith
  qed
qed

lemma exponent_minus [simp]: "exponent (- x) = exponent x"
  by (simp add: exponent_def)

lemma exponent_ge: "emin - 52 \<le> exponent x"
  by (simp add: exponent_def)

lemma exponent_upper:
  assumes "x \<noteq> 0"
  shows "\<bar>x\<bar> < 2 powi (exponent x + 53)"
proof -
  have "\<bar>x\<bar> < 2 powi (\<lfloor>log 2 \<bar>x\<bar>\<rfloor> + 1)"
    using assms by (intro floor_log2_bounds) simp
  also have "\<dots> \<le> 2 powi (exponent x + 53)"
    by (intro power_int_increasing) (simp_all add: exponent_def)
  finally show ?thesis .
qed

lemma exponent_normal:
  assumes "2 powi emin \<le> \<bar>x\<bar>"
  shows "exponent x = \<lfloor>log 2 \<bar>x\<bar>\<rfloor> - 52"
proof -
  have pos: "0 < \<bar>x\<bar>"
    using assms zero_less_power_int[of "2::real" emin] by linarith
  have "emin \<le> \<lfloor>log 2 \<bar>x\<bar>\<rfloor>"
    using assms le_floor_log2_iff[OF pos] by blast
  then show ?thesis
    by (simp add: exponent_def)
qed

lemma exponent_lower:
  assumes "2 powi emin \<le> \<bar>x\<bar>"
  shows "2 powi (exponent x + 52) \<le> \<bar>x\<bar>"
proof -
  have pos: "0 < \<bar>x\<bar>"
    using assms zero_less_power_int[of "2::real" emin] by linarith
  show ?thesis
    using floor_log2_bounds(1)[OF pos] exponent_normal[OF assms] by simp
qed

lemma exponent_eq:
  assumes "2 powi k \<le> \<bar>x\<bar>" "\<bar>x\<bar> < 2 powi (k + 1)"
  shows "exponent x = max k emin - 52"
proof -
  have pos: "0 < \<bar>x\<bar>"
    using assms(1) zero_less_power_int[of "2::real" k] by linarith
  have "\<lfloor>log 2 \<bar>x\<bar>\<rfloor> = k"
    using floor_log2_iff[OF pos] assms by blast
  then show ?thesis by (simp add: exponent_def)
qed

lemma exponent_subnormal:
  assumes "x \<noteq> 0" "\<bar>x\<bar> < 2 powi emin"
  shows "exponent x = emin - 52"
proof -
  have pos: "0 < \<bar>x\<bar>" using assms by simp
  have "\<not> emin \<le> \<lfloor>log 2 \<bar>x\<bar>\<rfloor>"
    using le_floor_log2_iff[OF pos, of emin] assms by linarith
  then show ?thesis by (simp add: exponent_def)
qed

lemma exponent_mono:
  assumes "x \<noteq> 0" "\<bar>x\<bar> \<le> \<bar>y\<bar>"
  shows "exponent x \<le> exponent y"
proof -
  have "log 2 \<bar>x\<bar> \<le> log 2 \<bar>y\<bar>"
    using assms by (intro log_mono) simp_all
  then have "\<lfloor>log 2 \<bar>x\<bar>\<rfloor> \<le> \<lfloor>log 2 \<bar>y\<bar>\<rfloor>" by (rule floor_mono)
  then show ?thesis by (simp add: exponent_def)
qed

lemma rd_zero [simp]: "rd 0 = 0"
  by (simp add: rd_def)

lemma rd_minus: "rd (- x) = - rd x"
  by (simp add: rd_def round_even_minus)

lemma rd_nonneg: 
  assumes "0 \<le> x" 
  shows "0 \<le> rd x"
proof (cases "x = 0")
  case False
  have "0 \<le> x / 2 powi exponent x" using assms by simp
  then have "0 \<le> round_even (x / 2 powi exponent x)" by (rule round_even_nonneg)
  then show ?thesis using False by (simp add: rd_def)
qed simp

lemma representableI:
  "\<bar>m\<bar> < 2 ^ 53 \<Longrightarrow> emin - 52 \<le> e \<Longrightarrow> representable (of_int m * 2 powi e)"
  unfolding representable_def by blast

lemma rd_representable:
  assumes "representable x"
  shows "rd x = x"
proof (cases "x = 0")
  case False
  from assms obtain m e where m: "\<bar>m\<bar> < 2 ^ 53" and e: "emin - 52 \<le> e"
    and x: "x = of_int m * 2 powi e"
    unfolding representable_def by blast
  define E where "E = exponent x"
  have pos: "0 < \<bar>x\<bar>" using False by simp
  have "\<bar>x\<bar> = of_int \<bar>m\<bar> * 2 powi e"
    by (simp add: x abs_mult)
  also have "\<dots> < 2 ^ 53 * 2 powi e"
  proof -
    have "real_of_int \<bar>m\<bar> < real_of_int (2 ^ 53)" using m by (simp only: of_int_less_iff)
    then show ?thesis by simp
  qed
  also have "\<dots> = 2 powi (e + 53)"
    by (simp add: power_int_add)
  finally have "\<not> 2 powi (e + 53) \<le> \<bar>x\<bar>" by simp
  then have "\<not> e + 53 \<le> \<lfloor>log 2 \<bar>x\<bar>\<rfloor>"
    using le_floor_log2_iff[OF pos] by blast
  then have Ee: "E \<le> e" using e by (simp add: E_def exponent_def)
  have "x / 2 powi E = of_int m * 2 powi (e - E)"
    by (simp add: x power_int_diff)
  also have "\<dots> = of_int (m * 2 ^ nat (e - E))"
    using Ee by (simp add: power_int_def)
  finally have "round_even (x / 2 powi E) = m * 2 ^ nat (e - E)"
    by (simp only: round_even_of_int)
  then have "rd x = of_int (m * 2 ^ nat (e - E)) * 2 powi E"
    using False by (simp add: rd_def E_def)
  also have "\<dots> = of_int m * (2 powi (e - E) * 2 powi E)"
    using Ee by (simp add: power_int_def)
  also have "2 powi (e - E) * 2 powi E = (2::real) powi e"
    by (simp add: power_int_diff)
  finally show ?thesis by (simp add: x)
qed simp

lemma representable_rd: "representable (rd x)"
proof (cases "x = 0")
  case True
  have "representable 0"
    unfolding representable_def by (rule exI[of _ 0], rule exI[of _ 0]) (simp add: emin_def)
  then show ?thesis using True by simp
next
  case False
  define E where "E = exponent x"
  define M where "M = round_even (x / 2 powi E)"
  have rdx: "rd x = of_int M * 2 powi E"
    using False by (simp add: rd_def E_def M_def)
  have E: "emin - 52 \<le> E" by (simp add: E_def exponent_ge)
  have "\<bar>x\<bar> < 2 powi (E + 53)"
    unfolding E_def by (rule exponent_upper[OF False])
  also have "\<dots> = 2 ^ 53 * 2 powi E" by (simp add: power_int_add)
  finally have "\<bar>x\<bar> / 2 powi E < 2 ^ 53"
    by (simp add: pos_divide_less_eq)
  then have q: "\<bar>x / 2 powi E\<bar> < 2 ^ 53" by simp
  have "real_of_int \<bar>M\<bar> \<le> \<bar>x / 2 powi E\<bar> + 1 / 2"
    using round_even_lower[of "x / 2 powi E"] round_even_upper[of "x / 2 powi E"]
    unfolding M_def by linarith
  then have "real_of_int \<bar>M\<bar> < real_of_int (2 ^ 53 + 1)" using q by simp
  then have "\<bar>M\<bar> < 2 ^ 53 + 1" by (simp only: of_int_less_iff)
  then have M: "\<bar>M\<bar> \<le> 2 ^ 53" by simp
  show ?thesis
  proof (cases "\<bar>M\<bar> = 2 ^ 53")
    case False
    then have "\<bar>M\<bar> < 2 ^ 53" using M by simp
    then show ?thesis
      unfolding representable_def rdx using E by blast
  next
    case True
    then have "M = 2 ^ 53 \<or> M = - (2 ^ 53)" by linarith
    then have "M = 2 * (M div 2)" "\<bar>M div 2\<bar> < 2 ^ 53" by auto
    moreover have "real_of_int M * 2 powi E = of_int (M div 2) * 2 powi (E + 1)"
    proof -
      have "real_of_int M = 2 * of_int (M div 2)"
        using \<open>M = 2 * (M div 2)\<close> by (metis of_int_mult of_int_numeral)
      then show ?thesis by (simp add: power_int_add)
    qed
    moreover have "emin - 52 \<le> E + 1" using E by simp
    ultimately show ?thesis
      unfolding representable_def rdx by blast
  qed
qed

lemma rd_idem [simp]: "rd (rd x) = rd x"
  by (rule rd_representable) (rule representable_rd)

lemma rd_mono_pos:
  assumes "0 < x" "x \<le> y"
  shows "rd x \<le> rd y"
proof -
  define Ex where "Ex = exponent x"
  define Ey where "Ey = exponent y"
  have x0: "x \<noteq> 0" and y0: "y \<noteq> 0" and ypos: "0 < y" using assms by auto
  have rx: "rd x = of_int (round_even (x / 2 powi Ex)) * 2 powi Ex"
    using x0 by (simp add: rd_def Ex_def)
  have ry: "rd y = of_int (round_even (y / 2 powi Ey)) * 2 powi Ey"
    using y0 by (simp add: rd_def Ey_def)
  have le: "Ex \<le> Ey"
    unfolding Ex_def Ey_def using assms by (intro exponent_mono) auto
  show ?thesis
  proof (cases "Ex = Ey")
    case True
    have "x / 2 powi Ey \<le> y / 2 powi Ey"
      using assms by (simp add: divide_right_mono)
    then have "round_even (x / 2 powi Ey) \<le> round_even (y / 2 powi Ey)"
      by (rule round_even_mono)
    then have "real_of_int (round_even (x / 2 powi Ey)) \<le> real_of_int (round_even (y / 2 powi Ey))"
      by (simp only: of_int_le_iff)
    then show ?thesis
      unfolding rx ry True by (intro mult_right_mono) simp_all
  next
    case False
    then have lt: "Ex + 1 \<le> Ey" using le by simp
    have "emin - 52 \<le> Ex" by (simp add: Ex_def exponent_ge)
    then have "emin < \<lfloor>log 2 \<bar>y\<bar>\<rfloor>"
      using lt by (simp add: Ey_def exponent_def)
    then have Ey: "Ey + 52 = \<lfloor>log 2 y\<rfloor>"
      using ypos by (simp add: Ey_def exponent_def)
    have ylow: "2 powi (Ey + 52) \<le> y"
      unfolding Ey by (rule floor_log2_bounds(1)[OF ypos])
    have "2 powi (Ey + 52) = 2 ^ 52 * (2::real) powi Ey"
      by (simp add: power_int_add)
    then have "real_of_int (2 ^ 52) \<le> y / 2 powi Ey"
      using ylow by (simp add: pos_le_divide_eq)
    then have "round_even (real_of_int (2 ^ 52)) \<le> round_even (y / 2 powi Ey)"
      by (rule round_even_mono)
    then have "2 ^ 52 \<le> round_even (y / 2 powi Ey)"
      by (simp only: round_even_of_int)
    then have "real_of_int (2 ^ 52) \<le> real_of_int (round_even (y / 2 powi Ey))"
      by (simp only: of_int_le_iff)
    then have "real_of_int (2 ^ 52) * 2 powi Ey \<le> rd y"
      unfolding ry by (intro mult_right_mono) simp_all
    then have low: "2 powi (Ey + 52) \<le> rd y"
      by (simp add: power_int_add)
    have "\<bar>x\<bar> < 2 powi (Ex + 53)"
      unfolding Ex_def by (rule exponent_upper[OF x0])
    also have "\<dots> = 2 ^ 53 * (2::real) powi Ex"
      by (simp add: power_int_add)
    finally have "x / 2 powi Ex \<le> real_of_int (2 ^ 53)"
      using assms(1) by (simp add: pos_divide_le_eq)
    then have "round_even (x / 2 powi Ex) \<le> round_even (real_of_int (2 ^ 53))"
      by (rule round_even_mono)
    then have "round_even (x / 2 powi Ex) \<le> 2 ^ 53"
      by (simp only: round_even_of_int)
    then have "real_of_int (round_even (x / 2 powi Ex)) \<le> real_of_int (2 ^ 53)"
      by (simp only: of_int_le_iff)
    then have "rd x \<le> real_of_int (2 ^ 53) * 2 powi Ex"
      unfolding rx by (intro mult_right_mono) simp_all
    also have "\<dots> = 2 powi (Ex + 53)"
      by (simp add: power_int_add)
    also have "\<dots> \<le> 2 powi (Ey + 52)"
      using lt by (intro power_int_increasing) simp_all
    finally show ?thesis using low by linarith
  qed
qed

lemma rd_mono:
  assumes "x \<le> y"
  shows "rd x \<le> rd y"
proof -
  consider "0 < x" | "x \<le> 0" "0 \<le> y" | "y < 0" by linarith
  then show ?thesis
  proof cases
    case 1
    then show ?thesis using assms by (rule rd_mono_pos)
  next
    case 2
    have "rd x \<le> 0" using rd_nonneg[of "- x"] 2 by (simp add: rd_minus)
    moreover have "0 \<le> rd y" using 2 by (intro rd_nonneg)
    ultimately show ?thesis by linarith
  next
    case 3
    then have "0 < - y" "- y \<le> - x" using assms by auto
    then have "rd (- y) \<le> rd (- x)" by (rule rd_mono_pos)
    then show ?thesis by (simp add: rd_minus)
  qed
qed

lemma rd_in_binade:
  assumes "2 powi (E + 52) \<le> x" "x < 2 powi (E + 53)" "emin - 52 \<le> E"
  shows "rd x = of_int (round_even (x / 2 powi E)) * 2 powi E"
proof -
  have pos: "0 < x"
    using assms(1) zero_less_power_int[of "2::real" "E + 52"] by linarith
  have "exponent x = max (E + 52) emin - 52"
    using assms(1,2) pos by (intro exponent_eq) (simp_all add: add.commute add.left_commute)
  then have "exponent x = E" using assms(3) by simp
  then show ?thesis using pos by (simp add: rd_def)
qed

lemma representable_of_int:
  assumes "\<bar>k\<bar> < 2 ^ 53"
  shows "representable (of_int k)"
  unfolding representable_def
  by (rule exI[of _ k], rule exI[of _ 0]) (use assms in \<open>simp add: emin_def\<close>)

lemma rd_of_int: "\<bar>k\<bar> < 2 ^ 53 \<Longrightarrow> rd (of_int k) = of_int k"
  by (intro rd_representable representable_of_int)

lemma rd_of_nat: "n < 2 ^ 53 \<Longrightarrow> rd (real n) = real n"
  using rd_of_int[of "int n"] by simp

lemma rd_one [simp]: "rd 1 = 1"
  using rd_of_int[of 1] by simp

subsection \<open>Doubles below 1, and products with them\<close>

lemma representable_less_one:
  assumes "representable u" "u < 1"
  shows "u \<le> 1 - 2 powi (- 53)"
proof (rule ccontr)
  assume "\<not> u \<le> 1 - 2 powi (- 53)"
  then have gt: "1 - 2 powi (- 53) < u" by simp
  have a: "2 powi (- 53 + 52) \<le> u"
    using gt by (simp add: power_int_minus)
  have b: "u < 2 powi (- 53 + 53)"
    using assms(2) by simp
  define q where "q = u / 2 powi (- 53)"
  have q: "real_of_int (2 ^ 53 - 1) < q" "q < real_of_int (2 ^ 53)"
    using gt assms(2) by (simp_all add: q_def power_int_minus field_simps)
  then have "\<lfloor>q\<rfloor> = 2 ^ 53 - 1"
    by (simp add: floor_unique)
  then have "round_even q = 2 ^ 53 - 1 \<or> round_even q = 2 ^ 53"
    using round_even_cases[of q] by auto
  moreover have "rd u = of_int (round_even q) * 2 powi (- 53)"
    unfolding q_def using a b by (intro rd_in_binade) (simp_all add: emin_def)
  moreover have "rd u = u" using assms(1) by (rule rd_representable)
  ultimately have "u = (2 ^ 53 - 1) * 2 powi (- 53) \<or> u = 2 ^ 53 * 2 powi (- 53)"
    by auto
  then show False
    using gt assms(2) by (auto simp: power_int_minus field_simps)
qed

lemma rd_mult_less:
  assumes u: "0 \<le> u" "u \<le> 1 - 2 powi (- 53)"
    and n: "representable n" "2 powi (emin + 1) \<le> n"
  shows "rd (u * n) < n"
proof -
  define E where "E = exponent n"
  define P :: real where "P = 2 powi E"
  define M where "M = round_even (n / P)"
  have P: "0 < P" by (simp add: P_def)
  have "(2::real) powi emin \<le> 2 powi (emin + 1)"
    by (intro power_int_increasing) simp_all
  then have normal: "2 powi emin \<le> \<bar>n\<bar>" using n(2) by linarith
  have npos: "0 < n"
    using n(2) zero_less_power_int[of "2::real" "emin + 1"] by linarith
  have low: "2 powi (E + 52) \<le> n"
    using exponent_lower[OF normal] npos by (simp add: E_def)
  have high: "n < 2 powi (E + 53)"
    using exponent_upper[of n] npos by (simp add: E_def)
  have Ege: "emin - 52 \<le> E" by (simp add: E_def exponent_ge)
  have p52: "2 powi (E + 52) = 2 ^ 52 * P" and p53: "2 powi (E + 53) = 2 ^ 53 * P"
    by (simp_all add: P_def power_int_add)
  have "rd n = of_int M * P"
    using npos by (simp add: rd_def M_def P_def E_def)
  then have nM: "n = of_int M * P"
    using rd_representable[OF n(1)] by simp
  have "real_of_int (2 ^ 52) * P \<le> of_int M * P"
    using low unfolding p52 nM by simp
  then have "real_of_int (2 ^ 52) \<le> of_int M"
    using P by (simp only: mult_le_cancel_right_pos)
  then have M52: "2 ^ 52 \<le> M" by (simp only: of_int_le_iff)
  have "of_int M * P < real_of_int (2 ^ 53) * P"
    using high unfolding p53 nM by simp
  then have "real_of_int M < of_int (2 ^ 53)"
    using P by (simp only: mult_less_cancel_right_pos)
  then have M53: "M < 2 ^ 53" by (simp only: of_int_less_iff)
  have "u * n \<le> (1 - 2 powi (- 53)) * n"
    using u(2) npos by (intro mult_right_mono) simp_all
  then have x: "u * n \<le> (of_int M - of_int M / 2 ^ 53) * P"
    by (simp add: nM power_int_minus field_simps)
  show ?thesis
  proof (cases "M = 2 ^ 52")
    case True
    define y where "y = real_of_int (2 ^ 53 - 1) * 2 powi (E - 1)"
    have "emin + 1 < E + 53"
    proof (rule ccontr)
      assume "\<not> emin + 1 < E + 53"
      then have "E + 53 \<le> emin + 1" by simp
      then have "(2::real) powi (E + 53) \<le> 2 powi (emin + 1)"
        by (intro power_int_increasing) simp_all
      then show False using n(2) high by linarith
    qed
    then have "emin - 52 \<le> E - 1" by simp
    then have "representable y"
      unfolding y_def by (intro representableI) simp_all
    then have ry: "rd y = y" by (rule rd_representable)
    have yP: "y = (2 ^ 53 - 1) * (P / 2)"
      by (simp add: y_def P_def power_int_diff)
    have "real_of_int M - of_int M / 2 ^ 53 = (2 ^ 53 - 1) / 2"
      unfolding True by simp
    then have "u * n \<le> y"
      using x unfolding yP by simp
    then have "rd (u * n) \<le> y" using rd_mono[of "u * n" y] ry by simp
    also have "y < n" using P unfolding yP nM True by simp
    finally show ?thesis .
  next
    case False
    then have M': "2 ^ 52 + 1 \<le> M" using M52 by simp
    define y where "y = real_of_int (M - 1) * P"
    have "representable y"
      unfolding y_def P_def using M52 M53 Ege by (intro representableI) simp_all
    then have ry: "rd y = y" by (rule rd_representable)
    have yn: "y < n" using P by (simp add: y_def nM field_simps)
    show ?thesis
    proof (cases "u * n \<le> y")
      case True
      then have "rd (u * n) \<le> y" using rd_mono[of "u * n" y] ry by simp
      then show ?thesis using yn by linarith
    next
      case False
      then have yx: "y < u * n" by simp
      have "real_of_int (2 ^ 52) \<le> real_of_int (M - 1)"
        using M' by (simp only: of_int_le_iff; simp)
      then have "real_of_int (2 ^ 52) * P \<le> y"
        unfolding y_def using P by (simp only: mult_le_cancel_right_pos)
      then have a: "2 powi (E + 52) \<le> u * n"
        unfolding p52 using yx by simp
      have half: "1 / 2 < real_of_int M / 2 ^ 53"
      proof -
        have "real_of_int (2 ^ 52) < real_of_int M" using M' by (simp only: of_int_less_iff; simp)
        then show ?thesis by simp
      qed
      have xlt: "u * n < (of_int M - 1 / 2) * P"
      proof -
        have "(of_int M - of_int M / 2 ^ 53) * P < (of_int M - 1 / 2) * P"
          using half P by (simp only: mult_less_cancel_right_pos; linarith)
        then show ?thesis using x by linarith
      qed
      also have "\<dots> < n" using P by (simp add: nM field_simps)
      finally have "u * n < n" .
      then have b: "u * n < 2 powi (E + 53)" using high by linarith
      have rx: "rd (u * n) = of_int (round_even (u * n / P)) * P"
        unfolding P_def using a b Ege by (rule rd_in_binade)
      have "real_of_int (M - 1) \<le> u * n / P"
        using yx P by (simp add: y_def pos_le_divide_eq)
      moreover have "u * n / P < real_of_int (M - 1) + 1 / 2"
        using xlt P by (simp add: pos_divide_less_eq field_simps)
      ultimately have "round_even (u * n / P) = M - 1"
        by (rule round_even_below_half)
      then have "rd (u * n) = y" by (simp add: rx y_def)
      then show ?thesis using yn by simp
    qed
  qed
qed

lemma min_normal_le_1: "2 powi (emin + 1) \<le> (1 :: real)"
proof -
  have "(2::real) powi (emin + 1) \<le> 2 powi 0"
    by (intro power_int_increasing) (simp_all add: emin_def)
  then show ?thesis by simp
qed

lemma min_normal_le_4: "2 powi (emin + 1) \<le> (4 :: real)"
proof -
  have "(2::real) powi (emin + 1) \<le> 2 powi 2"
    by (intro power_int_increasing) (simp_all add: emin_def)
  then show ?thesis by simp
qed

lemma floor_scaled:
  assumes u: "0 \<le> u" "u \<le> 1 - 2 powi (- 53)" and k: "1 \<le> k"
  shows "0 \<le> \<lfloor>rd (u * rd (of_int k))\<rfloor> \<and> \<lfloor>rd (u * rd (of_int k))\<rfloor> \<le> k - 1"
proof -
  define N where "N = rd (of_int k)"
  define p where "p = rd (u * N)"
  have "rd 1 \<le> rd (of_int k)" using k by (intro rd_mono) simp
  then have N1: "1 \<le> N" by (simp add: N_def)
  have rN: "representable N" by (simp add: N_def representable_rd)
  have "2 powi (emin + 1) \<le> N" using N1 min_normal_le_1 by linarith
  then have pN: "p < N"
    unfolding p_def using u rN by (intro rd_mult_less)
  have p0: "0 \<le> p"
    unfolding p_def using u N1 by (intro rd_nonneg) simp
  have "p < of_int k"
  proof (rule ccontr)
    assume "\<not> p < of_int k"
    then have "rd (of_int k) \<le> rd p" by (intro rd_mono) simp
    then have "N \<le> p" by (simp add: N_def p_def)
    then show False using pN by simp
  qed
  then have "\<lfloor>p\<rfloor> < k" by (simp add: floor_less_iff)
  moreover have "0 \<le> \<lfloor>p\<rfloor>" using p0 by simp
  ultimately show ?thesis by (simp add: p_def N_def)
qed

subsection \<open>Differences of doubles\<close>

lemma representable_grid:
  assumes "representable x"
  shows "\<exists>m :: int. x = of_int m * 2 powi (emin - 52)"
proof -
  from assms obtain m e where e: "emin - 52 \<le> e" and x: "x = of_int m * 2 powi e"
    unfolding representable_def by blast
  have "(2::real) powi e = 2 powi (e - (emin - 52)) * 2 powi (emin - 52)"
    by (simp add: power_int_add[symmetric])
  also have "(2::real) powi (e - (emin - 52)) = of_int (2 ^ nat (e - (emin - 52)))"
    using e by (simp add: power_int_def)
  finally have "x = of_int (m * 2 ^ nat (e - (emin - 52))) * 2 powi (emin - 52)"
    by (simp add: x)
  then show ?thesis by blast
qed

lemma grid_small_representable:
  assumes "x = of_int m * 2 powi (emin - 52)" "\<bar>x\<bar> < 2 powi (emin + 1)"
  shows "representable x"
proof -
  have "(2::real) powi (emin + 1) = 2 ^ 53 * 2 powi (emin - 52)"
  proof -
    have e: "emin + 1 = 53 + (emin - 52)" by simp
    have "(2::real) powi (emin + 1) = 2 powi 53 * 2 powi (emin - 52)"
      unfolding e by (rule power_int_add) simp
    then show ?thesis by simp
  qed
  then have "\<bar>real_of_int m\<bar> * 2 powi (emin - 52) < 2 ^ 53 * 2 powi (emin - 52)"
    using assms by (simp add: abs_mult)
  then have "\<bar>real_of_int m\<bar> < real_of_int (2 ^ 53)"
    by (simp only: mult_less_cancel_right_pos zero_less_power_int zero_less_numeral; simp)
  then have "real_of_int \<bar>m\<bar> < real_of_int (2 ^ 53)" by simp
  then have "\<bar>m\<bar> < 2 ^ 53" by (simp only: of_int_less_iff)
  then show ?thesis
    unfolding assms(1) by (intro representableI) simp_all
qed

lemma representable_small_diff:
  assumes "representable a" "representable b" "\<bar>a - b\<bar> < 2 powi (emin + 1)"
  shows "representable (a - b)"
proof -
  from representable_grid[OF assms(1)] obtain m where a: "a = of_int m * 2 powi (emin - 52)"
    by blast
  from representable_grid[OF assms(2)] obtain n where b: "b = of_int n * 2 powi (emin - 52)"
    by blast
  have "a - b = of_int (m - n) * 2 powi (emin - 52)"
    by (simp add: a b left_diff_distrib)
  then show ?thesis using assms(3) by (rule grid_small_representable)
qed

subsection \<open>Rounding of particular numbers\<close>

lemma rd_numeral [simp]: "numeral k < (2::int) ^ 53 \<Longrightarrow> rd (numeral k) = numeral k"
  using rd_of_int[of "numeral k"] by simp

lemma representable_numeral [simp]: "numeral k < (2::int) ^ 53 \<Longrightarrow> representable (numeral k)"
  using representable_of_int[of "numeral k"] by simp

lemma representable_0_1 [simp]: "representable 0" "representable 1"
  using representable_of_int[of 0] representable_of_int[of 1] by simp_all

lemma finite_double_numeral [simp]:
  "(numeral k :: int) < 2 ^ 1024 \<Longrightarrow> finite_double (numeral k)"
proof -
  assume "(numeral k :: int) < 2 ^ 1024"
  then have "real_of_int (numeral k) < real_of_int (2 ^ 1024)"
    by (simp only: of_int_less_iff)
  then show ?thesis by (simp add: finite_double_def)
qed

lemma finite_double_0_1 [simp]: "finite_double 0" "finite_double 1"
  by (simp_all add: finite_double_def)

lemma is_double_0_1: "is_double 0" "is_double 1"
  by (simp_all add: is_double_def)

lemma rd_2_powi:
  assumes "emin - 52 \<le> e"
  shows "rd (2 powi e) = 2 powi e"
proof -
  have "representable (of_int 1 * 2 powi e)"
    using assms by (intro representableI) simp_all
  then show ?thesis using rd_representable[of "2 powi e"] by simp
qed

lemma rd_half: "rd (1 / 2) = 1 / 2"
proof -
  have "representable (of_int 1 * 2 powi (- 1))"
    by (rule representableI) (simp_all add: emin_def)
  then have "representable (1 / 2)" by simp
  then show ?thesis by (rule rd_representable)
qed

lemma rd_3_halves: "rd (3 / 2) = 3 / 2"
proof -
  have "representable (of_int 3 * 2 powi (- 1))"
    by (rule representableI) (simp_all add: emin_def)
  then have "representable (3 / 2)" by simp
  then show ?thesis by (rule rd_representable)
qed

lemma rd_2_63: "rd 9223372036854775808 = 9223372036854775808"
proof -
  have "representable (of_int 1 * 2 powi 63)"
    by (rule representableI) (simp_all add: emin_def)
  then have "representable 9223372036854775808" by simp
  then show ?thesis by (rule rd_representable)
qed

lemma rd_2_64_minus_1: "rd 18446744073709551615 = 18446744073709551616"
proof -
  have "rd 18446744073709551615
      = of_int (round_even (18446744073709551615 / 2 powi 11)) * 2 powi 11"
    by (rule rd_in_binade) (simp_all add: emin_def)
  moreover have "round_even (18446744073709551615 / 2 powi 11) = 2 ^ 53"
  proof -
    have "\<lfloor>18446744073709551615 / 2 powi 11 :: real\<rfloor> = 2 ^ 53 - 1"
      by (simp add: floor_unique)
    then show ?thesis by (simp add: round_even_def)
  qed
  ultimately show ?thesis by simp
qed

lemma rd_3_quarters: "rd (3 / 4) = 3 / 4"
proof -
  have "representable (of_int 3 * 2 powi (- 2))"
    by (rule representableI) (simp_all add: emin_def)
  then have "representable (3 / 4)" by (simp add: power_int_minus)
  then show ?thesis by (rule rd_representable)
qed

lemma rd_3_2_62: "rd 13835058055282163712 = 13835058055282163712"
proof -
  have "representable (of_int 3 * 2 powi 62)"
    by (rule representableI) (simp_all add: emin_def)
  then have "representable 13835058055282163712" by simp
  then show ?thesis by (rule rd_representable)
qed

lemma smallest_double_pos: "(0 :: real) < 2 powi (emin - 52)"
  by (rule zero_less_power_int) simp

lemma finite_smallest_double: "finite_double (2 powi (emin - 52))"
proof -
  have "(2 :: real) powi (emin - 52) < 2 powi 1024"
    by (rule power_int_strict_increasing) (simp_all add: emin_def)
  then show ?thesis
    unfolding finite_double_def using smallest_double_pos by (simp only: abs_of_pos)
qed

lemma rd_3_quarters_smallest: "rd (3 / 4 * 2 powi (emin - 52)) = 2 powi (emin - 52)"
proof -
  define t :: real where "t = 2 powi (emin - 52)"
  define x where "x = 3 / 4 * t"
  have t: "0 < t" unfolding t_def by (rule smallest_double_pos)
  have x0: "x \<noteq> 0" using t by (simp add: x_def)
  have "t < 2 powi emin"
    unfolding t_def by (rule power_int_strict_increasing) simp_all
  then have "\<bar>x\<bar> < 2 powi emin" using t by (simp add: x_def)
  then have e: "exponent x = emin - 52" using x0 by (intro exponent_subnormal)
  have q: "x / 2 powi exponent x = 3 / 4"
    unfolding e t_def[symmetric] using t by (simp add: x_def)
  have "round_even (3 / 4) = 1" by (simp add: round_even_def)
  then have "round_even (x / 2 powi exponent x) = 1" by (simp only: q)
  then have "rd x = of_int 1 * 2 powi exponent x"
    using x0 by (simp only: rd_def if_False)
  then have "rd x = t" by (simp add: e t_def)
  then show ?thesis by (simp only: x_def t_def)
qed

section \<open>Results about next_unit\<close>

lemma of_T_nonneg: "0 \<le> of_T g"
  unfolding of_T_def by (rule rd_nonneg) (rule of_nat_0_le_iff)

lemma of_T_le_max: "of_T (g :: 'a::len word) \<le> of_T (- 1 :: 'a word)"
proof -
  have "unat g \<le> unat (- 1 :: 'a word)"
    by (simp add: word_le_nat_alt[symmetric])
  then have "real (unat g) \<le> real (unat (- 1 :: 'a word))"
    by (simp only: of_nat_le_iff)
  then show ?thesis
    unfolding of_T_def by (rule rd_mono)
qed

lemma unat_minus_1: "unat (- 1 :: 'a::len word) = 2 ^ LENGTH('a) - 1"
  by (simp add: unsigned_minus_1_eq_mask mask_eq_exp_minus_1)

lemma of_T_max_pos: "1 \<le> of_T (- 1 :: 'a::len word)"
proof -
  have "1 \<le> LENGTH('a)" by (simp add: Suc_leI)
  then have "(2::nat) ^ 1 \<le> 2 ^ LENGTH('a)"
    by (intro power_increasing) simp_all
  then have "1 \<le> unat (- 1 :: 'a word)"
    unfolding unat_minus_1 by simp
  then have "real 1 \<le> real (unat (- 1 :: 'a word))"
    by (simp only: of_nat_le_iff)
  then have "rd (real 1) \<le> rd (real (unat (- 1 :: 'a word)))"
    by (rule rd_mono)
  then show ?thesis
    unfolding of_T_def by simp
qed

lemma of_T_0 [simp]: "of_T 0 = 0"
  by (simp add: of_T_def)

lemma of_T_1 [simp]: "of_T 1 = 1"
  by (simp add: of_T_def)

lemma of_T_64_max: "of_T (- 1 :: 64 word) = 18446744073709551616"
  by (simp add: of_T_def unat_minus_1 rd_2_64_minus_1 del: of_nat_unat)

lemma of_T_64_half: "of_T (0x8000000000000000 :: 64 word) = 9223372036854775808"
  by (simp add: of_T_def rd_2_63 del: of_nat_unat)

lemma of_T_64_3_quarters: "of_T (0xC000000000000000 :: 64 word) = 13835058055282163712"
  by (simp add: of_T_def rd_3_2_62 del: of_nat_unat)

lemma unit_candidate_bounds: "0 \<le> unit_candidate g" "unit_candidate g \<le> 1"
proof -
  have m: "0 < of_T (- 1 :: 'a word)" using of_T_max_pos[where 'a = 'a] by linarith
  have "0 \<le> of_T g / of_T (- 1 :: 'a word)"
    using of_T_nonneg[of g] m by simp
  then show "0 \<le> unit_candidate g"
    unfolding unit_candidate_def fdiv_def by (rule rd_nonneg)
  have "of_T g / of_T (- 1 :: 'a word) \<le> 1"
    using of_T_le_max[of g] m by simp
  then have "rd (of_T g / of_T (- 1 :: 'a word)) \<le> rd 1" by (rule rd_mono)
  then show "unit_candidate g \<le> 1"
    by (simp add: unit_candidate_def fdiv_def)
qed

lemma representable_unit_candidate: "representable (unit_candidate g)"
  by (simp add: unit_candidate_def fdiv_def representable_rd)

lemma unit_candidate_0 [simp]: "unit_candidate 0 = 0"
  by (simp add: unit_candidate_def fdiv_def)

lemma unit_candidate_max [simp]: "unit_candidate (- 1) = 1"
proof -
  have "of_T (- 1 :: 'a word) \<noteq> 0" using of_T_max_pos[where 'a = 'a] by linarith
  then show ?thesis by (simp add: unit_candidate_def fdiv_def)
qed

lemma unit_candidate_64_half: "unit_candidate (0x8000000000000000 :: 64 word) = 1 / 2"
  by (simp add: unit_candidate_def fdiv_def of_T_64_max of_T_64_half rd_half)

lemma unit_candidate_64_3_quarters: "unit_candidate (0xC000000000000000 :: 64 word) = 3 / 4"
  by (simp add: unit_candidate_def fdiv_def of_T_64_max of_T_64_3_quarters rd_3_quarters)

lemma next_unit_Inr:
  assumes "next_unit gs = (Inr x, gs')"
  shows "0 \<le> x \<and> x < 1 \<and> representable x \<and> length gs' < length gs"
  using assms
proof (induction gs)
  case (Cons g gs)
  show ?case
  proof (cases "unit_candidate g = 1")
    case True
    then have "next_unit gs = (Inr x, gs')" using Cons.prems by simp
    then show ?thesis using Cons.IH by simp
  next
    case False
    then have "x = unit_candidate g" "gs' = gs" using Cons.prems by simp_all
    then show ?thesis
      using False unit_candidate_bounds[of g] representable_unit_candidate[of g] by simp
  qed
qed simp

lemma next_unit_Inl:
  assumes "next_unit gs = (Inl e, gs')"
  shows "e = Draws_Exhausted \<and> gs' = []"
  using assms by (induction gs) (auto simp: Let_def split: if_splits)

lemma next_unit_returns:
  assumes "\<exists>g \<in> set gs. unit_candidate g \<noteq> 1"
  shows "\<exists>x gs'. next_unit gs = (Inr x, gs')"
  using assms by (induction gs) (auto simp: Let_def)

lemma next_unit_le: 
  assumes "next_unit gs = (Inr x, gs')"
  shows "x \<le> 1 - 2 powi (- 53)"
  using next_unit_Inr[OF assms] by (intro representable_less_one) simp_all

lemma next_unit_Inr_iff:
  "(\<exists>x gs'. next_unit gs = (Inr x, gs')) \<longleftrightarrow> (\<exists>g \<in> set gs. unit_candidate g \<noteq> 1)"
proof
  assume "\<exists>x gs'. next_unit gs = (Inr x, gs')"
  then show "\<exists>g \<in> set gs. unit_candidate g \<noteq> 1"
    by (induction gs) (auto simp: Let_def split: if_splits)
next
  assume "\<exists>g \<in> set gs. unit_candidate g \<noteq> 1"
  then show "\<exists>x gs'. next_unit gs = (Inr x, gs')" by (rule next_unit_returns)
qed

lemma next_unit_0 [simp]: "next_unit (0 # gs) = (Inr 0, gs)"
  by simp

lemma next_unit_max [simp]: "next_unit (- 1 # gs) = next_unit gs"
  by simp

lemma next_unit_64_half:
  "next_unit ((0x8000000000000000 :: 64 word) # gs) = (Inr (1 / 2), gs)"
  by (simp add: unit_candidate_64_half)

lemma next_unit_64_3_quarters:
  "next_unit ((0xC000000000000000 :: 64 word) # gs) = (Inr (3 / 4), gs)"
  by (simp add: unit_candidate_64_3_quarters)

text \<open>
  Claim C8 (\<^verbatim>\<open>next_unit\<close> never returns 1.0 and its result lies in \<open>[0, 1)\<close>).
  Every quotient of a raw value by the largest value of \<open>T\<close>, rounded as a
  \<^verbatim>\<open>double\<close>, lies between 0 and 1 inclusive; a value that \<^verbatim>\<open>next_unit\<close> returns is
  at least 0 and strictly below 1; and the call returns exactly when some raw
  value of the list gives a quotient other than 1.0.
\<close>

theorem next_unit_half_open:
  fixes gs :: "'a::len word list"
  shows "(\<forall>g :: 'a word. 0 \<le> unit_candidate g \<and> unit_candidate g \<le> 1)
    \<and> (\<forall>x gs'. next_unit gs = (Inr x, gs') \<longrightarrow> 0 \<le> x \<and> x < 1 \<and> x \<noteq> 1)
    \<and> ((\<exists>x gs'. next_unit gs = (Inr x, gs')) \<longleftrightarrow> (\<exists>g \<in> set gs. unit_candidate g \<noteq> 1))"
  using unit_candidate_bounds next_unit_Inr[of gs] next_unit_Inr_iff[of gs] by auto

theorem next_unit_half_open_witness:
  "unit_candidate (- 1 :: 32 word) = 1 \<and> unit_candidate (0 :: 32 word) = 0
   \<and> next_unit [- 1, 0 :: 32 word] = (Inr 0, []) \<and> (0 :: real) \<le> 0 \<and> (0 :: real) < 1"
  using next_unit_half_open[of "[- 1, 0 :: 32 word]"] by simp

section \<open>Results about next_in_range\<close>

lemma fmul_0 [simp]: "fmul 0 a = 0" "fmul a 0 = 0"
  by (simp_all add: fmul_def)

lemma next_in_range_Inl:
  assumes "next_in_range mn mx gs = (Inl e, gs')"
  shows "e = Draws_Exhausted \<or> e = Undefined_Cast"
  using assms next_unit_Inl
  by (fastforce simp: next_in_range_def Let_def split: prod.splits sum.splits if_splits)

lemma sint_of_int_64: "0 \<le> k \<Longrightarrow> k < 2 ^ 63 \<Longrightarrow> sint (word_of_int k :: 64 word) = k"
  by (simp add: sint_sbintrunc' signed_take_bit_int_eq_self)

lemma sint_sum_64:
  fixes mn :: "'a::len word"
  assumes "0 \<le> p" "p + uint mn < 2 ^ 63"
  shows "sint (word_of_int p + ucast mn :: 64 word) = p + uint mn"
proof -
  have "(word_of_int p + ucast mn :: 64 word) = word_of_int p + word_of_int (uint mn)"
    by simp
  also have "\<dots> = word_of_int (p + uint mn)"
    by (rule wi_hom_add)
  finally have "sint (word_of_int p + ucast mn :: 64 word) = sint (word_of_int (p + uint mn) :: 64 word)"
    by (rule arg_cong)
  also have "\<dots> = p + uint mn"
    using assms by (intro sint_of_int_64) simp_all
  finally show ?thesis .
qed

lemma range_size_eq:
  fixes mn mx :: "'a::len word"
  assumes "mn \<le> mx"
  shows "range_size mn mx = rd (of_int (uint mx - uint mn + 1))
    \<or> range_size mn mx = 0"
proof (cases "LENGTH('a) < 32")
  case True
  then show ?thesis by (simp add: range_size_def)
next
  case False
  have d: "uint (mx - mn) = uint mx - uint mn"
    using assms by (simp add: uint_sub_lem[symmetric] word_le_def)
  show ?thesis
  proof (cases "mx - mn + 1 = 0")
    case True
    then show ?thesis using False by (simp add: range_size_def)
  next
    case nz: False
    have "uint (mx - mn + 1) = uint (mx - mn) + 1"
    proof (cases "uint (mx - mn) + uint (1 :: 'a word) < 2 ^ LENGTH('a)")
      case True
      then show ?thesis by (simp add: uint_plus_if')
    next
      case False
      then have "uint (mx - mn + 1) = uint (mx - mn) + uint (1 :: 'a word) - 2 ^ LENGTH('a)"
        by (simp add: uint_plus_if')
      moreover have "uint (mx - mn) < 2 ^ LENGTH('a)" by (rule uint_lt2p)
      moreover have "0 \<le> uint (mx - mn + 1)" by simp
      moreover have "uint (1 :: 'a word) = 1" by simp
      ultimately have "uint (mx - mn + 1) = 0" by linarith
      then have "mx - mn + 1 = 0" by (simp add: uint_0_iff)
      then show ?thesis using nz by simp
    qed
    then have "real (unat (mx - mn + 1)) = of_int (uint mx - uint mn + 1)"
      unfolding d[symmetric] by (metis of_int_of_nat_eq uint_nat of_nat_unat)
    then show ?thesis using False by (simp add: range_size_def of_T_def del: of_nat_unat)
  qed
qed

lemma next_in_range_cases:
  fixes mn mx :: "'a::len word"
  assumes le: "mn \<le> mx" and fit: "uint mx < 2 ^ 63"
  shows "(\<exists>w gs'. next_in_range mn mx gs = (Inr w, gs') \<and> uint mn \<le> sint w \<and> sint w \<le> uint mx)
    \<or> (next_in_range mn mx gs = (Inl Draws_Exhausted, []) \<and> (\<forall>g \<in> set gs. unit_candidate g = 1))"
proof (cases "\<exists>g \<in> set gs. unit_candidate g \<noteq> 1")
  case False
  then have all: "\<forall>g \<in> set gs. unit_candidate g = 1" by blast
  then have "next_unit gs = (Inl Draws_Exhausted, [])"
    by (induction gs) simp_all
  then show ?thesis using all by (simp add: next_in_range_def)
next
  case True
  from next_unit_returns[OF this] obtain u g1 where nu: "next_unit gs = (Inr u, g1)"
    by blast
  have u: "0 \<le> u" "u \<le> 1 - 2 powi (- 53)"
    using next_unit_Inr[OF nu] next_unit_le[OF nu] by simp_all
  define k where "k = uint mx - uint mn + 1"
  have k1: "1 \<le> k" using le by (simp add: k_def word_le_def)
  define p where "p = \<lfloor>fmul u (range_size mn mx)\<rfloor>"
  have p: "0 \<le> p \<and> p \<le> k - 1"
  proof -
    from range_size_eq[OF le]
    consider "range_size mn mx = rd (of_int k)" | "range_size mn mx = 0"
      unfolding k_def by blast
    then show ?thesis
    proof cases
      case 1
      then show ?thesis
        unfolding p_def fmul_def using floor_scaled[OF u k1] by simp
    next
      case 2
      then show ?thesis using k1 by (simp add: p_def)
    qed
  qed
  then have ub: "p + uint mn \<le> uint mx" by (simp add: k_def)
  have "0 \<le> uint mn" by simp
  then have "p < 2 ^ 63" "- (2 ^ 63) \<le> p" using ub fit p by linarith+
  then have res: "next_in_range mn mx gs = (Inr (word_of_int p + ucast mn), g1)"
    using nu by (simp add: next_in_range_def p_def[symmetric] Let_def)
  have "sint (word_of_int p + ucast mn :: 64 word) = p + uint mn"
    using p ub fit by (intro sint_sum_64) simp_all
  then show ?thesis using res p ub by auto
qed

lemma next_in_range_example: "next_in_range 2 4 [0 :: 32 word] = (Inr 2, [])"
  by (simp add: next_in_range_def)

lemma next_in_range_2_63:
  "next_in_range 0x8000000000000000 0x8000000000000000 [0 :: 64 word]
     = (Inr 0x8000000000000000, [])"
  by (simp add: next_in_range_def)

lemma next_in_range_64_half_3:
  "next_in_range 0 2 ((0x8000000000000000 :: 64 word) # gs) = (Inr 1, gs)"
  by (simp add: Let_def unit_candidate_64_half next_in_range_def range_size_def of_T_def fmul_def rd_3_halves)

lemma next_in_range_64_half_2:
  "next_in_range 0 1 ((0x8000000000000000 :: 64 word) # gs) = (Inr 1, gs)"
  by (simp add: Let_def unit_candidate_64_half next_in_range_def range_size_def of_T_def fmul_def)

lemma next_in_range_64_half_1:
  "next_in_range 0 0 ((0x8000000000000000 :: 64 word) # gs) = (Inr 0, gs)"
  by (simp add: Let_def unit_candidate_64_half next_in_range_def range_size_def of_T_def fmul_def rd_half)

text \<open>
  Claim C1, as stated, fails for a 64-bit \<open>T\<close> and bounds from \<open>2 ^ 63\<close> on: the
  result type is \<^verbatim>\<open>int64_t\<close>. With \<open>min = max = 2 ^ 63\<close> and the raw value 0 the
  function returns the 64-bit pattern of \<open>2 ^ 63\<close>, which as an \<^verbatim>\<open>int64_t\<close> is
  \<open>- 2 ^ 63\<close>, below \<open>min\<close>.
\<close>

theorem next_in_range_above_int64:
  "(0x8000000000000000 :: 64 word) \<le> 0x8000000000000000
   \<and> next_in_range 0x8000000000000000 0x8000000000000000 [0 :: 64 word]
       = (Inr 0x8000000000000000, [])
   \<and> sint (0x8000000000000000 :: 64 word) = - 9223372036854775808
   \<and> uint (0x8000000000000000 :: 64 word) = 9223372036854775808"
  using next_in_range_2_63 by simp

text \<open>
  Claim C1, amended. For \<open>min \<le> max\<close> with \<open>max\<close> below \<open>2 ^ 63\<close>, so that every
  value of the range is an \<^verbatim>\<open>int64_t\<close>: every value \<^verbatim>\<open>next_in_range(min, max)\<close>
  returns lies in the inclusive range from \<open>min\<close> to \<open>max\<close>, and is \<open>min\<close> when
  \<open>min = max\<close>, whatever the raw values; the call returns as soon as one raw
  value gives a quotient other than 1.0, and the conversion to \<^verbatim>\<open>int64_t\<close> is
  always defined. The rounding of the product \<open>next_unit() * (max - min + 1)\<close>
  never reaches \<open>max - min + 1\<close>.
\<close>

theorem next_in_range_inclusive:
  fixes mn mx :: "'a::len word"
  assumes "mn \<le> mx" "uint mx < 2 ^ 63"
  shows "(\<forall>w gs'. next_in_range mn mx gs = (Inr w, gs')
        \<longrightarrow> uint mn \<le> sint w \<and> sint w \<le> uint mx \<and> (mn = mx \<longrightarrow> sint w = uint mn))
    \<and> ((\<exists>g \<in> set gs. unit_candidate g \<noteq> 1) \<longrightarrow> (\<exists>w gs'. next_in_range mn mx gs = (Inr w, gs')))
    \<and> fst (next_in_range mn mx gs) \<noteq> Inl Undefined_Cast"
  using next_in_range_cases[OF assms, of gs] by auto

theorem next_in_range_inclusive_witness:
  "next_in_range 2 4 [0 :: 32 word] = (Inr 2, [])
   \<and> uint (2 :: 32 word) \<le> sint (2 :: 64 word) \<and> sint (2 :: 64 word) \<le> uint (4 :: 32 word)
   \<and> fst (next_in_range 2 4 [0 :: 32 word]) \<noteq> Inl Undefined_Cast"
  using next_in_range_inclusive[of "2 :: 32 word" 4 "[0]"] next_in_range_example
  by simp

section \<open>Results about next_in_crange\<close>

lemma crange_step:
  assumes mn: "representable mn" and mx: "representable mx" and le: "mn \<le> mx"
    and u: "0 \<le> u" "u \<le> 1 - 2 powi (- 53)"
  shows "mn \<le> fadd (fmul (fsub mx mn) u) mn \<and> fadd (fmul (fsub mx mn) u) mn \<le> mx"
proof -
  define D where "D = mx - mn"
  define d where "d = rd D"
  define p where "p = rd (d * u)"
  have D0: "0 \<le> D" using le by (simp add: D_def)
  have d0: "0 \<le> d" unfolding d_def using D0 by (rule rd_nonneg)
  have p0: "0 \<le> p" unfolding p_def using d0 u(1) by (intro rd_nonneg) simp
  have u1: "u \<le> 1"
  proof -
    have "0 < (2::real) powi (- 53)" by (rule zero_less_power_int) simp
    then show ?thesis using u(2) by linarith
  qed
  have "d * u \<le> d" using d0 u1 by (simp add: mult_left_le)
  then have "rd (d * u) \<le> rd d" by (rule rd_mono)
  then have pd: "p \<le> d" by (simp add: p_def d_def)
  have pD: "p \<le> D"
  proof (cases "d \<le> D")
    case True
    then show ?thesis using pd by linarith
  next
    case False
    then have dD: "D < d" by simp
    have "\<not> representable D"
    proof
      assume "representable D"
      then have "d = D" unfolding d_def by (rule rd_representable)
      then show False using dD by simp
    qed
    then have "\<not> \<bar>D\<bar> < 2 powi (emin + 1)"
      using representable_small_diff[OF mx mn] by (auto simp: D_def)
    then have "2 powi (emin + 1) \<le> D" using D0 by simp
    then have "rd (2 powi (emin + 1)) \<le> rd D" by (rule rd_mono)
    then have "2 powi (emin + 1) \<le> d"
      by (simp add: d_def rd_2_powi)
    moreover have "representable d" by (simp add: d_def representable_rd)
    ultimately have "rd (u * d) < d" using u by (intro rd_mult_less)
    then have lt: "p < d" by (simp add: p_def mult.commute)
    show ?thesis
    proof (rule ccontr)
      assume "\<not> p \<le> D"
      then have "rd D \<le> rd p" by (intro rd_mono) simp
      then have "d \<le> p" by (simp add: d_def p_def)
      then show False using lt by simp
    qed
  qed
  have "rd mn \<le> rd (p + mn)" using p0 by (intro rd_mono) simp
  then have low: "mn \<le> rd (p + mn)" using rd_representable[OF mn] by simp
  have "rd (p + mn) \<le> rd mx" using pD by (intro rd_mono) (simp add: D_def)
  then have high: "rd (p + mn) \<le> mx" using rd_representable[OF mx] by simp
  show ?thesis
    using low high by (simp add: fadd_def fmul_def fsub_def p_def d_def D_def)
qed

lemma next_in_crange_Inr:
  fixes gs :: "'a::len word list"
  assumes "representable mn" "representable mx" "mn \<le> mx"
    and "next_in_crange mn mx gs = (Inr x, gs')"
  shows "mn \<le> x \<and> x < mx"
  using assms
proof (induction mn mx gs rule: next_in_crange.induct)
  case (1 mn mx gs)
  obtain q g1 where nu: "next_unit gs = (q, g1)" by (cases "next_unit gs")
  from "1.prems"(4) nu obtain u where q: "q = Inr u"
    by (cases q) auto
  define d where "d = fsub mx mn"
  define y where "y = fadd (fmul d u) mn"
  have u: "0 \<le> u" "u \<le> 1 - 2 powi (- 53)"
    using next_unit_Inr[of gs u g1] next_unit_le[of gs u g1] nu q by simp_all
  have fin: "\<not> \<not> (finite_double d \<and> finite_double y)"
    using "1.prems"(4) nu q
    by (auto simp: d_def y_def Let_def split: if_splits)
  have step: "mn \<le> y \<and> y \<le> mx"
    unfolding y_def d_def using "1.prems"(1,2,3) u by (rule crange_step)
  show ?case
  proof (cases "y = mx")
    case True
    then have "next_in_crange mn mx g1 = (Inr x, gs')"
      using "1.prems"(4) nu q fin by (simp add: d_def[symmetric] y_def[symmetric] Let_def)
    then show ?thesis
      using "1.IH"[OF nu[symmetric] q d_def y_def fin True "1.prems"(1,2,3)] by blast
  next
    case False
    then have "x = y"
      using "1.prems"(4) nu q fin by (simp add: d_def[symmetric] y_def[symmetric] Let_def)
    then show ?thesis using step False by simp
  qed
qed

lemma next_in_crange_example: "next_in_crange 0 1 [0 :: 32 word] = (Inr 0, [])"
  by (simp add: fsub_def fadd_def)

text \<open>
  Claim C7, as stated, fails at the lower end: the loop of \<^verbatim>\<open>next_in_crange\<close>
  rejects a value equal to \<open>max\<close> only. For \<open>min = 0\<close>, \<open>max = 1\<close> and the raw value
  0, \<^verbatim>\<open>next_unit\<close> is 0 and the function returns \<open>(1 - 0) * 0 + 0 = 0\<close>, which
  is \<open>min\<close>, not a value strictly above it.
\<close>

theorem next_in_crange_returns_min:
  "is_double 0 \<and> is_double 1 \<and> (0 :: real) < 1
   \<and> next_in_crange 0 1 [0 :: 32 word] = (Inr 0, []) \<and> \<not> (0 :: real) < 0"
  using next_in_crange_example is_double_0_1 by simp

text \<open>
  Claim C7, amended. For doubles \<open>min < max\<close>, every value that
  \<^verbatim>\<open>next_in_crange(min, max)\<close> returns without an overflow of \<open>max - min\<close> lies in
  the half-open interval from \<open>min\<close> (included) to \<open>max\<close> (excluded): it is never
  \<open>max\<close> and never outside the interval, whatever the raw values.
\<close>

theorem next_in_crange_half_open:
  fixes gs :: "'a::len word list"
  assumes "is_double mn" "is_double mx" "mn < mx"
    and "next_in_crange mn mx gs = (Inr x, gs')"
  shows "mn \<le> x \<and> x < mx \<and> x \<noteq> mx"
  using next_in_crange_Inr[of mn mx gs x gs'] assms by (simp add: is_double_def)

theorem next_in_crange_half_open_witness:
  "next_in_crange 0 1 [0 :: 32 word] = (Inr 0, []) \<and> (0 :: real) \<le> 0 \<and> (0 :: real) < 1"
  using next_in_crange_half_open[of 0 1 "[0 :: 32 word]" 0 "[]"]
    next_in_crange_example is_double_0_1
  by simp

section \<open>Results about the unweighted choice\<close>

lemma choice_empty_0: "choice [] (0 # gs) = (Inl Undefined_Read, gs)"
  by (simp add: choice_def next_in_range_def)

lemma choice_empty_outcome:
  fixes gs :: "'a::len word list"
  shows "fst (choice [] gs) \<noteq> Inl Invalid_Argument \<and> (\<forall>x. fst (choice [] gs) \<noteq> Inr x)"
  by (auto simp: choice_def split: prod.splits sum.splits dest: next_in_range_Inl)

text \<open>
  Claim C6 (the unweighted \<^verbatim>\<open>choice\<close> fails with an error on an empty sequence).
  The function has no test of the length. On an empty sequence it calls
  \<^verbatim>\<open>next_in_range(0, - 1)\<close>, which draws raw values, and then reads at the index it
  gets, outside the sequence: with a first raw value of 0 the index is 0. No run
  on an empty sequence ends in \<open>Invalid_Argument\<close>, the error by which the weighted
  \<^verbatim>\<open>choice\<close> rejects an empty sequence, and none returns an element.
\<close>

theorem choice_empty_reads_outside:
  fixes gs :: "'a::len word list"
  shows "choice [] (0 # gs) = (Inl Undefined_Read, gs)
    \<and> fst (choice [] gs) \<noteq> Inl Invalid_Argument
    \<and> (\<forall>x. fst (choice [] gs) \<noteq> Inr x)"
  using choice_empty_0[of gs] choice_empty_outcome[of gs] by blast

section \<open>Results about the weighted choice\<close>

lemma upper_bound_from_spec:
  assumes "sorted xs" "first + len \<le> length xs"
    and "\<forall>j<first. \<not> v < xs ! j"
    and "\<forall>j. first + len \<le> j \<and> j < length xs \<longrightarrow> v < xs ! j"
  shows "first \<le> upper_bound_from xs v first len
    \<and> upper_bound_from xs v first len \<le> first + len
    \<and> (\<forall>j<upper_bound_from xs v first len. \<not> v < xs ! j)
    \<and> (\<forall>j. upper_bound_from xs v first len \<le> j \<and> j < length xs \<longrightarrow> v < xs ! j)"
  using assms
proof (induction xs v first len rule: upper_bound_from.induct)
  case (1 xs v first len)
  show ?case
  proof (cases "len = 0")
    case True
    then show ?thesis using "1.prems" by simp
  next
    case False
    define half where "half = len div 2"
    define middle where "middle = first + half"
    have half: "half < len" using False by (simp add: half_def)
    have mid: "middle < length xs" using half "1.prems"(2) by (simp add: middle_def)
    show ?thesis
    proof (cases "v < xs ! middle")
      case True
      have up: "\<forall>j. first + half \<le> j \<and> j < length xs \<longrightarrow> v < xs ! j"
      proof (intro allI impI)
        fix j assume j: "first + half \<le> j \<and> j < length xs"
        then have "xs ! middle \<le> xs ! j"
          using "1.prems"(1) by (simp add: middle_def sorted_nth_mono)
        then show "v < xs ! j" using True by linarith
      qed
      have eq: "upper_bound_from xs v first len = upper_bound_from xs v first half"
        using False True by (simp add: half_def middle_def Let_def)
      have "first + half \<le> length xs" using half "1.prems"(2) by simp
      from "1.IH"(1)[OF False half_def middle_def True "1.prems"(1) this "1.prems"(3) up]
      show ?thesis unfolding eq using half by auto
    next
      case nlt: False
      have low: "\<forall>j<middle + 1. \<not> v < xs ! j"
      proof (intro allI impI)
        fix j assume "j < middle + 1"
        then have "xs ! j \<le> xs ! middle"
          using "1.prems"(1) mid by (simp add: sorted_nth_mono)
        then show "\<not> v < xs ! j" using nlt by linarith
      qed
      have eq: "upper_bound_from xs v first len = upper_bound_from xs v (middle + 1) (len - half - 1)"
        using False nlt by (simp add: half_def middle_def Let_def)
      have s: "middle + 1 + (len - half - 1) = first + len"
        using half by (simp add: middle_def)
      have b: "middle + 1 + (len - half - 1) \<le> length xs"
        unfolding s using "1.prems"(2) .
      have up: "\<forall>j. middle + 1 + (len - half - 1) \<le> j \<and> j < length xs \<longrightarrow> v < xs ! j"
        unfolding s using "1.prems"(4) .
      from "1.IH"(2)[OF False half_def middle_def nlt "1.prems"(1) b low up]
      show ?thesis unfolding eq s by (auto simp: middle_def)
    qed
  qed
qed

lemma upper_bound_spec:
  assumes "sorted xs"
  shows "upper_bound xs v \<le> length xs
    \<and> (\<forall>j<upper_bound xs v. \<not> v < xs ! j)
    \<and> (\<forall>j. upper_bound xs v \<le> j \<and> j < length xs \<longrightarrow> v < xs ! j)"
  using upper_bound_from_spec[of xs 0 "length xs" v] assms
  unfolding upper_bound_def by simp

lemma length_cumulative [simp]: "length (cumulative c ws) = length ws"
  by (induction ws arbitrary: c) (simp_all add: Let_def)

lemma cumulative_props:
  assumes "representable c" "list_all (\<lambda>w. 0 \<le> w) ws"
  shows "sorted (cumulative c ws) \<and> (\<forall>x \<in> set (cumulative c ws). c \<le> x)"
  using assms
proof (induction ws arbitrary: c)
  case (Cons w ws)
  define c' where "c' = fadd c w"
  have r: "representable c'" by (simp add: c'_def fadd_def representable_rd)
  have "rd c \<le> rd (c + w)" using Cons.prems(2) by (intro rd_mono) simp
  then have le: "c \<le> c'"
    using rd_representable[OF Cons.prems(1)] by (simp add: c'_def fadd_def)
  have "sorted (cumulative c' ws) \<and> (\<forall>x \<in> set (cumulative c' ws). c' \<le> x)"
    using Cons.IH[OF r] Cons.prems(2) by simp
  then show ?case using le by (auto simp: Let_def c'_def[symmetric])
qed simp

lemma cumulative_nth:
  assumes "k < length ws"
  shows "cumulative c ws ! k = fadd (if k = 0 then c else cumulative c ws ! (k - 1)) (ws ! k)"
  using assms
proof (induction ws arbitrary: c k)
  case (Cons w ws)
  show ?case
  proof (cases k)
    case 0
    then show ?thesis by (simp add: Let_def)
  next
    case (Suc k')
    then have "k' < length ws" using Cons.prems by simp
    from Cons.IH[OF this, of "fadd c w"] show ?thesis
      using Suc by (cases k') (simp_all add: Let_def)
  qed
qed simp

lemma representable_cumulative:
  "x \<in> set (cumulative c ws) \<Longrightarrow> representable x"
  by (induction ws arbitrary: c) (auto simp: Let_def fadd_def representable_rd)

lemma cumulative_zero:
  assumes "list_all (\<lambda>w. w = 0) ws"
  shows "cumulative 0 ws = replicate (length ws) 0"
  using assms by (induction ws) (simp_all add: Let_def fadd_def)

lemma weighted_draw_nonneg:
  assumes "list_all (\<lambda>w. representable w \<and> 0 \<le> w) ws" "ws \<noteq> []" "0 \<le> x"
  shows "0 \<le> weighted_draw (cumulative 0 ws) x"
proof -
  have nn: "list_all (\<lambda>w. 0 \<le> w) ws"
    using assms(1) by (simp add: list_all_iff)
  have "representable 0" using representable_of_int[of 0] by simp
  from cumulative_props[OF this nn]
  have "\<forall>c \<in> set (cumulative 0 ws). 0 \<le> c" by simp
  moreover have "cumulative 0 ws ! (length (cumulative 0 ws) - 1) \<in> set (cumulative 0 ws)"
    using assms(2) by (intro nth_mem) (simp add: Suc_leI)
  ultimately have "0 \<le> cumulative 0 ws ! (length (cumulative 0 ws) - 1)" by blast
  then show ?thesis
    unfolding weighted_draw_def fmul_def using assms(3) by (intro rd_nonneg) simp
qed

lemma zero_weight_not_found:
  assumes ws: "list_all (\<lambda>w. representable w \<and> 0 \<le> w) ws" 
    and k: "k < length ws" "ws ! k = 0"
    and u: "0 \<le> u" "\<forall>j<k. \<not> u < cumulative 0 ws ! j"
  shows "\<not> u < cumulative 0 ws ! k"
proof (cases k)
  case 0
  then show ?thesis using cumulative_nth[OF k(1), of 0] k(2) u(1) by (simp add: fadd_def)
next
  case (Suc k')
  have "cumulative 0 ws ! k' \<in> set (cumulative 0 ws)"
    using k(1) Suc by (intro nth_mem) simp
  then have "representable (cumulative 0 ws ! k')" by (rule representable_cumulative)
  then have "cumulative 0 ws ! k = cumulative 0 ws ! k'"
    using cumulative_nth[OF k(1), of 0] k(2) Suc by (simp add: fadd_def rd_representable)
  then show ?thesis using u(2) Suc by simp
qed

lemma choice_weighted_example:
  "choice_weighted ''abc'' [0, 1, 3] [0 :: 32 word] = (Inr CHR ''b'', [])"
  by (simp add: choice_weighted_def fadd_def upper_bound_def weighted_draw_def)

lemma choice_weighted_zero_example:
  "choice_weighted ''a'' [0] [0 :: 32 word] = (Inl Undefined_Read, [])"
  by (simp add: choice_weighted_def fadd_def upper_bound_def weighted_draw_def)

text \<open>
  For equal, non-zero lengths and non-negative weights, an element that the
  weighted \<^verbatim>\<open>choice\<close> returns is the entry at the first index whose cumulative
  weight strictly exceeds the draw, and its weight is not 0.
\<close>

lemma choice_weighted_Inr:
  fixes gs :: "'a::len word list"
  assumes "length xs = length ws" "xs \<noteq> []"
    and ws: "list_all (\<lambda>w. representable w \<and> 0 \<le> w) ws"
    and res: "choice_weighted xs ws gs = (Inr e, gs')"
  shows "\<exists>x k. next_unit gs = (Inr x, gs') \<and> k < length xs \<and> e = xs ! k
    \<and> weighted_draw (cumulative 0 ws) x < cumulative 0 ws ! k
    \<and> (\<forall>j<k. \<not> weighted_draw (cumulative 0 ws) x < cumulative 0 ws ! j)
    \<and> ws ! k \<noteq> 0"
proof -
  define cw where "cw = cumulative 0 ws"
  have fin: "list_all finite_double cw"
    using res assms(1,2) by (auto simp: choice_weighted_def cw_def Let_def split: if_splits)
  obtain r g1 where nu: "next_unit gs = (r, g1)" by (cases "next_unit gs")
  from res assms(1,2) fin nu obtain x where r: "r = Inr x"
    by (cases r) (auto simp: choice_weighted_def cw_def Let_def)
  define u where "u = weighted_draw cw x"
  define k where "k = upper_bound cw u"
  from res assms(1,2) fin nu r have k: "k < length xs" and e: "e = xs ! k" and g: "g1 = gs'"
    by (auto simp: choice_weighted_def cw_def[symmetric] u_def[symmetric] k_def[symmetric] Let_def
        split: if_splits)
  have nn: "list_all (\<lambda>w. 0 \<le> w) ws"
    using ws by (simp add: list_all_iff)
  have "representable 0" using representable_of_int[of 0] by simp
  from cumulative_props[OF this nn] have "sorted cw" by (simp add: cw_def)
  from upper_bound_spec[OF this, of u]
  have below: "\<forall>j<k. \<not> u < cw ! j" and above: "u < cw ! k"
    using k assms(1) by (simp_all add: k_def cw_def)
  have x0: "0 \<le> x" using next_unit_Inr[of gs x g1] nu r by simp
  have "ws \<noteq> []" using assms(1,2) by auto
  then have u0: "0 \<le> u"
    unfolding u_def cw_def using ws x0 by (intro weighted_draw_nonneg)
  have "ws ! k \<noteq> 0"
    using zero_weight_not_found[OF ws _ _ u0, of k] below above k assms(1)
    by (auto simp: cw_def)
  then show ?thesis
    using nu r g k e below above by (auto simp: u_def cw_def)
qed

lemma choice_weighted_returns:
  fixes gs :: "'a::len word list"
  assumes "length xs = length ws" "xs \<noteq> []"
    and ws: "list_all (\<lambda>w. representable w \<and> 0 \<le> w) ws"
    and fin: "list_all finite_double (cumulative 0 ws)"
    and total: "2 powi (emin + 1) \<le> cumulative 0 ws ! (length ws - 1)"
    and draws: "\<exists>g \<in> set gs. unit_candidate g \<noteq> 1"
  shows "\<exists>e \<in> set xs. fst (choice_weighted xs ws gs) = Inr e"
proof -
  define cw where "cw = cumulative 0 ws"
  define t where "t = cw ! (length ws - 1)"
  from next_unit_returns[OF draws] obtain x gs' where nu: "next_unit gs = (Inr x, gs')"
    by blast
  have x: "0 \<le> x" "x \<le> 1 - 2 powi (- 53)"
    using next_unit_Inr[OF nu] next_unit_le[OF nu] by simp_all
  have n: "0 < length ws" using assms(1,2) by auto
  then have "t \<in> set cw" unfolding t_def cw_def by (intro nth_mem) simp
  then have "representable t" unfolding cw_def by (rule representable_cumulative)
  then have lt: "rd (x * t) < t"
    using x total by (intro rd_mult_less) (simp_all add: t_def cw_def)
  define u where "u = weighted_draw cw x"
  have u: "u < cw ! (length ws - 1)"
    using lt by (simp add: u_def weighted_draw_def fmul_def t_def cw_def)
  define k where "k = upper_bound cw u"
  have nn: "list_all (\<lambda>w. 0 \<le> w) ws"
    using ws by (simp add: list_all_iff)
  from cumulative_props[OF representable_0_1(1) nn] have "sorted cw" by (simp add: cw_def)
  from upper_bound_spec[OF this, of u]
  have kle: "k \<le> length ws" and below: "\<forall>j<k. \<not> u < cw ! j"
    by (simp_all add: k_def cw_def)
  have "k \<noteq> length ws"
  proof
    assume "k = length ws"
    then have "length ws - 1 < k" using n by simp
    then show False using below u by blast
  qed
  then have k: "k < length xs" using kle assms(1) by simp
  then have "choice_weighted xs ws gs = (Inr (xs ! k), gs')"
    using assms(1,2) fin nu
    by (simp add: choice_weighted_def cw_def[symmetric] u_def[symmetric] k_def[symmetric])
  then show ?thesis using k by (intro bexI[of _ "xs ! k"]) simp_all
qed

lemma cumulative_smallest: "cumulative 0 [2 powi (emin - 52)] = [2 powi (emin - 52)]"
  by (simp add: fadd_def rd_2_powi)

lemma weighted_draw_smallest:
  "weighted_draw [2 powi (emin - 52)] (3 / 4) = 2 powi (emin - 52)"
  using rd_3_quarters_smallest by (simp add: weighted_draw_def fmul_def)

lemma upper_bound_single: "upper_bound [c] c = 1"
  by (simp add: upper_bound_def)

lemma choice_weighted_smallest:
  "choice_weighted ''a'' [2 powi (emin - 52)] [0xC000000000000000 :: 64 word]
     = (Inl Undefined_Read, [])"
  unfolding choice_weighted_def cumulative_smallest
  by (simp add: finite_smallest_double next_unit_64_3_quarters weighted_draw_smallest
      upper_bound_single del: next_unit.simps)

lemma choice_weighted_121_example:
  "choice_weighted ''abc'' [1, 0, 3] [0x8000000000000000 :: 64 word] = (Inr CHR ''c'', [])"
  unfolding choice_weighted_def
  by (simp add: fadd_def next_unit_64_half upper_bound_def weighted_draw_def fmul_def
      del: next_unit.simps)

text \<open>
  Claim C4, as stated, fails for a strictly positive total weight that is too
  small: the product \<open>next_unit() * total\<close> is rounded, and in the subnormal range
  it can round up to the total itself. For the single weight \<open>2 ^ - 1074\<close>, the
  smallest positive double, and the 64-bit raw value \<open>3 * 2 ^ 62\<close>, \<^verbatim>\<open>next_unit\<close> is
  \<open>3 / 4\<close>, the draw \<open>u\<close> is \<open>3 / 4 * 2 ^ - 1074\<close> rounded, which is \<open>2 ^ - 1074\<close>, no
  cumulative weight strictly exceeds it, and the call reads past the end of the
  sequence instead of returning an element.
\<close>

theorem choice_weighted_subnormal_total:
  "length ''a'' = length [2 powi (emin - 52) :: real] \<and> ''a'' \<noteq> [] \<and> emin - 52 = - 1074
   \<and> (0 :: real) < 2 powi (emin - 52)
   \<and> cumulative 0 [2 powi (emin - 52)] = [2 powi (emin - 52)]
   \<and> next_unit [0xC000000000000000 :: 64 word] = (Inr (3 / 4), [])
   \<and> weighted_draw [2 powi (emin - 52)] (3 / 4) = 2 powi (emin - 52)
   \<and> choice_weighted ''a'' [2 powi (emin - 52)] [0xC000000000000000 :: 64 word]
       = (Inl Undefined_Read, [])"
  using smallest_double_pos cumulative_smallest next_unit_64_3_quarters[of "[]"]
    weighted_draw_smallest choice_weighted_smallest
  by (simp add: emin_def del: next_unit.simps)

text \<open>
  Claim C4, amended. For equal, non-zero lengths and non-negative weights of
  type \<^verbatim>\<open>real_t\<close> whose cumulative sums are finite and whose total is a normal
  double of at least \<open>2 ^ - 1021\<close>: whenever \<^verbatim>\<open>next_unit\<close> returns, the weighted
  \<^verbatim>\<open>choice\<close> returns an element, and it is the entry at the first index whose
  cumulative weight strictly exceeds the draw \<open>u = next_unit() * total\<close>: the draw
  is below the cumulative weight at that index and below none of the cumulative
  weights before it. The weight at that index is not 0, so an element of weight
  0 is never returned, whatever the raw values.
\<close>

theorem choice_weighted_first_exceeding:
  fixes gs :: "'a::len word list"
  assumes "length xs = length ws" "xs \<noteq> []"
    and "list_all (\<lambda>w. representable w \<and> 0 \<le> w) ws"
    and "list_all finite_double (cumulative 0 ws)"
    and "2 powi (emin + 1) \<le> cumulative 0 ws ! (length ws - 1)"
    and "next_unit gs = (Inr x, gs')"
  shows "\<exists>k<length xs. choice_weighted xs ws gs = (Inr (xs ! k), gs')
    \<and> weighted_draw (cumulative 0 ws) x < cumulative 0 ws ! k
    \<and> (\<forall>j<k. \<not> weighted_draw (cumulative 0 ws) x < cumulative 0 ws ! j)
    \<and> ws ! k \<noteq> 0"
proof -
  have "\<exists>g \<in> set gs. unit_candidate g \<noteq> 1"
    using assms(6) next_unit_Inr_iff[of gs] by blast
  from choice_weighted_returns[OF assms(1,2,3,4,5) this]
  obtain e where "fst (choice_weighted xs ws gs) = Inr e" by blast
  then obtain g2 where res: "choice_weighted xs ws gs = (Inr e, g2)"
    by (cases "choice_weighted xs ws gs") simp
  from choice_weighted_Inr[OF assms(1,2,3) res]
  obtain x' k where nu: "next_unit gs = (Inr x', g2)" and k: "k < length xs" "e = xs ! k"
    and u: "weighted_draw (cumulative 0 ws) x' < cumulative 0 ws ! k"
      "\<forall>j<k. \<not> weighted_draw (cumulative 0 ws) x' < cumulative 0 ws ! j"
    and w: "ws ! k \<noteq> 0"
    by blast
  have "x' = x" "g2 = gs'" using nu assms(6) by simp_all
  then show ?thesis using res k u w by blast
qed

theorem choice_weighted_first_exceeding_witness:
  "choice_weighted ''abc'' [1, 0, 3] [0x8000000000000000 :: 64 word] = (Inr CHR ''c'', [])
   \<and> (\<exists>k<length ''abc''.
        choice_weighted ''abc'' [1, 0, 3] [0x8000000000000000 :: 64 word]
          = (Inr (''abc'' ! k), [])
        \<and> weighted_draw (cumulative 0 [1, 0, 3]) (1 / 2) < cumulative 0 [1, 0, 3] ! k
        \<and> (\<forall>j<k. \<not> weighted_draw (cumulative 0 [1, 0, 3]) (1 / 2) < cumulative 0 [1, 0, 3] ! j)
        \<and> [1, 0, 3] ! k \<noteq> (0 :: real))"
proof (rule conjI)
  show "choice_weighted ''abc'' [1, 0, 3] [0x8000000000000000 :: 64 word] = (Inr CHR ''c'', [])"
    by (rule choice_weighted_121_example)
  show "\<exists>k<length ''abc''.
        choice_weighted ''abc'' [1, 0, 3] [0x8000000000000000 :: 64 word]
          = (Inr (''abc'' ! k), [])
        \<and> weighted_draw (cumulative 0 [1, 0, 3]) (1 / 2) < cumulative 0 [1, 0, 3] ! k
        \<and> (\<forall>j<k. \<not> weighted_draw (cumulative 0 [1, 0, 3]) (1 / 2) < cumulative 0 [1, 0, 3] ! j)
        \<and> [1, 0, 3] ! k \<noteq> (0 :: real)"
    by (rule choice_weighted_first_exceeding[of "''abc''" "[1, 0, 3]" "[0x8000000000000000 :: 64 word]"
          "1 / 2" "[]"])
      (simp_all add: fadd_def min_normal_le_4 next_unit_64_half del: next_unit.simps)
qed

lemma choice_weighted_invalid_iff:
  fixes gs :: "'a::len word list"
  shows "fst (choice_weighted xs ws gs) = Inl Invalid_Argument \<longleftrightarrow> length xs \<noteq> length ws \<or> xs = []"
proof -
  have "fst (next_unit gs) \<noteq> Inl Invalid_Argument"
    using next_unit_Inl[of gs Invalid_Argument "snd (next_unit gs)"]
    by (cases "next_unit gs") auto
  then show ?thesis
    by (auto simp: choice_weighted_def Let_def split: prod.splits sum.splits)
qed

lemma choice_weighted_invalid_state:
  fixes gs :: "'a::len word list"
  assumes "fst (choice_weighted xs ws gs) = Inl Invalid_Argument"
  shows "snd (choice_weighted xs ws gs) = gs"
  using assms choice_weighted_invalid_iff[of xs ws gs]
  by (auto simp: choice_weighted_def)

text \<open>
  Claim C5, as stated, fails where it says that every call with equal, non-zero
  lengths returns an element: with the single weight 0 the call reads past the
  end of the sequence.
\<close>

theorem choice_weighted_no_element:
  "length ''a'' = length [0 :: real] \<and> ''a'' \<noteq> []
   \<and> choice_weighted ''a'' [0] [0 :: 32 word] = (Inl Undefined_Read, [])"
  using choice_weighted_zero_example by simp

text \<open>
  Claim C5, amended. The weighted \<^verbatim>\<open>choice\<close> throws \<^verbatim>\<open>std::invalid_argument\<close> exactly
  when the lengths differ or the sequence is empty, and then no raw value has
  been drawn (the sequence is never written by the function). In every other
  case it does not throw, and it returns an element of the sequence when the
  weights are non-negative doubles, their cumulative sums are finite, the total
  is a normal double of at least \<open>2 ^ - 1021\<close>, and the raw values let \<^verbatim>\<open>next_unit\<close>
  return.
\<close>

theorem choice_weighted_invalid_argument:
  fixes gs :: "'a::len word list"
  shows "(fst (choice_weighted xs ws gs) = Inl Invalid_Argument
        \<longleftrightarrow> length xs \<noteq> length ws \<or> xs = [])
    \<and> (fst (choice_weighted xs ws gs) = Inl Invalid_Argument
        \<longrightarrow> snd (choice_weighted xs ws gs) = gs)
    \<and> (length xs = length ws \<and> xs \<noteq> []
        \<and> list_all (\<lambda>w. representable w \<and> 0 \<le> w) ws
        \<and> list_all finite_double (cumulative 0 ws)
        \<and> 2 powi (emin + 1) \<le> cumulative 0 ws ! (length ws - 1)
        \<and> (\<exists>g \<in> set gs. unit_candidate g \<noteq> 1)
        \<longrightarrow> (\<exists>e \<in> set xs. fst (choice_weighted xs ws gs) = Inr e))"
  using choice_weighted_invalid_iff[of xs ws gs] choice_weighted_invalid_state[of xs ws gs]
    choice_weighted_returns[of xs ws gs]
  by blast

theorem choice_weighted_invalid_argument_witness:
  "fst (choice_weighted ''ab'' [0, 1, 3] [0 :: 32 word]) = Inl Invalid_Argument
   \<and> snd (choice_weighted ''ab'' [0, 1, 3] [0 :: 32 word]) = [0]
   \<and> fst (choice_weighted ([] :: string) [] [0 :: 32 word]) = Inl Invalid_Argument
   \<and> snd (choice_weighted ([] :: string) [] [0 :: 32 word]) = [0]
   \<and> fst (choice_weighted ''abc'' [0, 1, 3] [0 :: 32 word]) \<noteq> Inl Invalid_Argument
   \<and> (\<exists>e \<in> set ''abc''. fst (choice_weighted ''abc'' [0, 1, 3] [0 :: 32 word]) = Inr e)"
  using choice_weighted_invalid_argument[of "''ab''" "[0, 1, 3]" "[0 :: 32 word]"]
    choice_weighted_invalid_argument[of "[] :: string" "[]" "[0 :: 32 word]"]
    choice_weighted_invalid_argument[of "''abc''" "[0, 1, 3]" "[0 :: 32 word]"]
    min_normal_le_4
  by (simp add: fadd_def)

text \<open>
  Claim C10 (with equal, non-zero lengths and all weights 0 the weighted
  \<^verbatim>\<open>choice\<close> reads one past the end). Every cumulative weight is 0, the draw
  \<open>next_unit() * 0\<close> is 0, no cumulative weight exceeds it, so the search returns
  the length of the sequence and the read at that index is outside the sequence.
\<close>

theorem choice_weighted_zero_weights:
  fixes gs :: "'a::len word list"
  assumes "length xs = length ws" "xs \<noteq> []" "list_all (\<lambda>w. w = 0) ws"
    and "next_unit gs = (Inr x, gs')"
  shows "weighted_draw (cumulative 0 ws) x = 0
    \<and> upper_bound (cumulative 0 ws) 0 = length xs
    \<and> choice_weighted xs ws gs = (Inl Undefined_Read, gs')"
proof -
  define cw where "cw = cumulative 0 ws"
  have cw: "cw = replicate (length ws) 0"
    unfolding cw_def using assms(3) by (rule cumulative_zero)
  have n: "0 < length ws" using assms(1,2) by auto
  have draw: "weighted_draw cw x = 0"
    using n by (simp add: weighted_draw_def cw)
  have "sorted cw" by (simp add: cw)
  from upper_bound_spec[OF this, of 0]
  have "upper_bound cw 0 \<le> length ws"
    and "\<forall>j. upper_bound cw 0 \<le> j \<and> j < length ws \<longrightarrow> (0::real) < cw ! j"
    by (simp_all add: cw)
  then have ub: "upper_bound cw 0 = length ws"
    using n by (metis cw le_neq_implies_less less_irrefl nth_replicate order_refl)
  have fin: "list_all finite_double cw"
    by (simp add: cw list_all_length finite_double_def)
  have "choice_weighted xs ws gs = (Inl Undefined_Read, gs')"
    using assms(1,2,4) fin draw ub
    by (simp add: choice_weighted_def cw_def[symmetric])
  then show ?thesis using draw ub assms(1) by (simp add: cw_def)
qed

theorem choice_weighted_zero_weights_witness:
  "weighted_draw (cumulative 0 [0, 0, 0]) 0 = 0
   \<and> upper_bound (cumulative 0 [0, 0, 0]) 0 = length ''abc''
   \<and> choice_weighted ''abc'' [0, 0, 0] [0 :: 32 word] = (Inl Undefined_Read, [])"
  using choice_weighted_zero_weights[of "''abc''" "[0, 0, 0]" "[0 :: 32 word]" 0 "[]"]
  by simp

section \<open>Results about shuffle\<close>

lemma mset_remove_nth:
  assumes "ind < length v"
  shows "mset (take ind v @ drop (ind + 1) v) + {#v ! ind#} = mset v"
proof -
  have "v = take ind v @ v ! ind # drop (ind + 1) v"
    using assms by (simp add: id_take_nth_drop)
  then have "mset v = mset (take ind v @ v ! ind # drop (ind + 1) v)" by simp
  then show ?thesis by simp
qed

lemma shuffle_loop_mset:
  fixes len :: "'a::len word"
  assumes "shuffle_loop i len arr v gs = (Inr ys, gs')"
    and "i + length v = unat len" "unat len \<le> length arr"
  shows "mset ys = mset (take i arr) + mset v + mset (drop (unat len) arr)
    \<and> length ys = length arr"
  using assms
proof (induction i len arr v gs rule: shuffle_loop.induct)
  case (1 i len arr v gs)
  show ?case
  proof (cases "i < unat len")
    case False
    then have "length v = 0" and iL: "i = unat len" using "1.prems"(2) by linarith+
    then have v: "v = []" by simp
    have ys: "ys = arr" using False "1.prems"(1) by simp
    have "mset arr = mset (take i arr) + mset (drop i arr)"
      by (metis append_take_drop_id mset_append)
    then show ?thesis
      unfolding ys v iL[symmetric] by simp
  next
    case True
    obtain r g1 where nr: "next_in_range 0 (len - of_nat i - 1) gs = (r, g1)"
      by (cases "next_in_range 0 (len - of_nat i - 1) gs")
    from "1.prems"(1) True nr obtain w where r: "r = Inr w"
      by (cases r) auto
    define ind where "ind = unat (ucast w :: 'a word)"
    from "1.prems"(1) True nr r have ind: "ind < length v"
      by (auto simp: ind_def Let_def split: if_splits)
    define arr' where "arr' = arr[i := v ! ind]"
    define v' where "v' = take ind v @ drop (ind + 1) v"
    have rec: "shuffle_loop (i + 1) len arr' v' g1 = (Inr ys, gs')"
      using "1.prems"(1) True nr r ind
      by (simp add: ind_def[symmetric] arr'_def v'_def Let_def)
    have lv: "i + 1 + length v' = unat len"
      using "1.prems"(2) ind by (simp add: v'_def)
    have la: "unat len \<le> length arr'"
      using "1.prems"(3) by (simp add: arr'_def)
    have ih: "mset ys = mset (take (i + 1) arr') + mset v' + mset (drop (unat len) arr')
        \<and> length ys = length arr'"
      using "1.IH"[OF True nr[symmetric] r ind_def ind rec[unfolded arr'_def v'_def]
          lv[unfolded v'_def] la[unfolded arr'_def]]
      unfolding arr'_def[symmetric] v'_def[symmetric] .
    have i: "i < length arr" using True "1.prems"(3) by simp
    have t: "take (i + 1) arr' = take i arr @ [v ! ind]"
      using i by (simp add: arr'_def take_Suc_conv_app_nth)
    have d: "drop (unat len) arr' = drop (unat len) arr"
      using True by (simp add: arr'_def)
    have m: "mset v' + {#v ! ind#} = mset v"
      unfolding v'_def using ind by (rule mset_remove_nth)
    show ?thesis
      using ih unfolding t d by (simp add: m[symmetric] arr'_def)
  qed
qed

lemma shuffle_mset:
  fixes gs :: "'a::len word list"
  assumes "fst (shuffle xs gs) = Inr ys"
  shows "mset ys = mset xs \<and> length ys = length xs"
proof -
  define len :: "'a word" where "len = of_nat (length xs)"
  have le: "unat len \<le> length xs"
    by (simp add: len_def unat_of_nat)
  obtain gs' where res: "shuffle_loop 0 len xs (take (unat len) xs) gs = (Inr ys, gs')"
    using assms
    by (cases "shuffle_loop 0 len xs (take (unat len) xs) gs")
      (auto simp: shuffle_def shuffle_array_def len_def split: if_splits)
  from shuffle_loop_mset[OF res _ le] le
  have "mset ys = mset (take (unat len) xs) + mset (drop (unat len) xs)"
    and "length ys = length xs"
    by simp_all
  then show ?thesis
    by (metis append_take_drop_id mset_append)
qed

lemma uint_of_nonneg_sint:
  fixes w :: "64 word"
  assumes "0 \<le> sint w"
  shows "uint w = sint w"
proof -
  have "sint w < 2 ^ (LENGTH(64) - 1)" by (rule sint_lt)
  then have lt: "sint w < 2 ^ 64" by simp
  have "w = word_of_int (sint w)" by simp
  then have "uint w = uint (word_of_int (sint w) :: 64 word)" by simp
  also have "\<dots> = sint w mod 2 ^ 64"
    by (simp only: uint_word_of_int) simp
  also have "\<dots> = sint w" using assms lt by simp
  finally show ?thesis .
qed

lemma unat_ucast_index:
  fixes w :: "64 word"
  assumes "0 \<le> sint w" "sint w \<le> uint (mx :: 'a::len word)"
  shows "int (unat (ucast w :: 'a word)) = sint w"
proof -
  have u: "uint w = sint w" using assms(1) by (rule uint_of_nonneg_sint)
  have "uint mx < 2 ^ LENGTH('a)" by (rule uint_lt2p)
  then have lt: "uint w < 2 ^ LENGTH('a)" using assms(2) u by linarith
  have "uint (ucast w :: 'a word) = take_bit LENGTH('a) (uint w)"
    by (rule unsigned_ucast_eq)
  also have "\<dots> = uint w"
    using lt by (simp add: take_bit_int_eq_self)
  finally show ?thesis by (simp add: uint_nat[symmetric] u del: of_nat_unat)
qed

lemma shuffle_loop_defined:
  fixes len :: "'a::len word"
  assumes "i + length v = unat len" "unat len < 2 ^ 31"
  shows "fst (shuffle_loop i len arr v gs) \<noteq> Inl Undefined_Read
    \<and> fst (shuffle_loop i len arr v gs) \<noteq> Inl Undefined_Cast"
  using assms
proof (induction i len arr v gs rule: shuffle_loop.induct)
  case (1 i len arr v gs)
  show ?case
  proof (cases "i < unat len")
    case False
    then show ?thesis by simp
  next
    case True
    define mx where "mx = len - of_nat i - 1"
    have oi: "unat (of_nat i :: 'a word) = i"
      using True by (intro le_unat_uoi[of _ len]) simp
    then have "(of_nat i :: 'a word) < len"
      using True by (simp add: word_less_nat_alt)
    then have a: "unat (len - of_nat i) = unat len - i"
      using oi by (simp add: unat_sub)
    then have "len - of_nat i \<noteq> 0" using True by (auto simp: unat_eq_0[symmetric] simp del: unat_eq_0)
    then have "unat mx = unat len - i - 1"
      unfolding mx_def using a by (simp add: unat_minus_one)
    then have umx: "uint mx = int (unat len) - int i - 1"
      using True by (simp add: uint_nat del: of_nat_unat)
    have "int (unat len) < int (2 ^ 31)"
      using "1.prems"(2) by (simp only: of_nat_less_iff)
    then have ul: "uint len < 2 ^ 31" by simp
    have fit: "uint mx < 2 ^ 63" using umx ul by simp
    have "int i + int (length v) = int (unat len)"
      using "1.prems"(1) by (simp only: of_nat_add[symmetric])
    then have "int i + int (length v) = uint len" by simp
    then have lv: "int (length v) = uint mx + 1" using umx by simp
    from next_in_range_cases[of 0 mx gs, OF _ fit]
    consider w g1 where "next_in_range 0 mx gs = (Inr w, g1)" "0 \<le> sint w" "sint w \<le> uint mx"
      | "next_in_range 0 mx gs = (Inl Draws_Exhausted, [])"
      by auto
    then show ?thesis
    proof cases
      case 2
      then show ?thesis using True by (simp add: mx_def)
    next
      case 1
      note nr = 1
      define ind where "ind = unat (ucast w :: 'a word)"
      have "int ind = sint w" unfolding ind_def using nr(2,3) by (rule unat_ucast_index)
      then have ind: "ind < length v" using nr(3) lv by linarith
      define arr' where "arr' = arr[i := v ! ind]"
      define v' where "v' = take ind v @ drop (ind + 1) v"
      have eq: "shuffle_loop i len arr v gs = shuffle_loop (i + 1) len arr' v' g1"
        using True nr(1) ind
        by (simp add: mx_def[symmetric] ind_def[symmetric] arr'_def v'_def Let_def)
      have lv': "i + 1 + length v' = unat len"
        using "1.prems"(1) ind by (simp add: v'_def)
      show ?thesis
        unfolding eq
        using "1.IH"[OF True nr(1)[unfolded mx_def, symmetric] refl ind_def ind
            lv'[unfolded v'_def] "1.prems"(2)]
        by (simp add: arr'_def v'_def)
    qed
  qed
qed

lemma shuffle_loop_stop:
  fixes len :: "'a::len word"
  assumes "fst (shuffle_loop i len arr v gs) = Inl e"
  shows "e = Draws_Exhausted \<or> e = Undefined_Cast \<or> e = Undefined_Read"
  using assms
proof (induction i len arr v gs rule: shuffle_loop.induct)
  case (1 i len arr v gs)
  show ?case
  proof (cases "i < unat len")
    case False
    then show ?thesis using "1.prems" by simp
  next
    case True
    obtain r g1 where nr: "next_in_range 0 (len - of_nat i - 1) gs = (r, g1)"
      by (cases "next_in_range 0 (len - of_nat i - 1) gs")
    show ?thesis
    proof (cases r)
      case (Inl e')
      then have "e = e'" using "1.prems" True nr by simp
      then show ?thesis using next_in_range_Inl[of 0 "len - of_nat i - 1" gs e' g1] nr Inl by auto
    next
      case (Inr w)
      define ind where "ind = unat (ucast w :: 'a word)"
      show ?thesis
      proof (cases "ind < length v")
        case False
        then show ?thesis using "1.prems" True nr Inr by (simp add: ind_def Let_def)
      next
        case ind: True
        have "fst (shuffle_loop (i + 1) len (arr[i := v ! ind]) (take ind v @ drop (ind + 1) v) g1)
            = Inl e"
          using "1.prems" True nr Inr ind by (simp add: ind_def[symmetric] Let_def)
        then show ?thesis
          using "1.IH"[OF True nr[symmetric] Inr ind_def ind] by blast
      qed
    qed
  qed
qed

lemma shuffle_defined:
  fixes gs :: "'a::len word list"
  assumes "length xs < 2 ^ 31"
  shows "fst (shuffle xs gs) = Inl Draws_Exhausted \<or> (\<exists>ys. fst (shuffle xs gs) = Inr ys)"
proof -
  define len :: "'a word" where "len = of_nat (length xs)"
  have le: "unat len \<le> length xs"
    by (simp add: len_def unat_of_nat)
  then have small: "unat len < 2 ^ 31" using assms by linarith
  define v where "v = take (unat len) xs"
  have lv: "0 + length v = unat len" using le by (simp add: v_def)
  have eq: "shuffle xs gs = shuffle_loop 0 len xs v gs"
    using small by (simp add: shuffle_def shuffle_array_def len_def v_def)
  show ?thesis
  proof (cases "fst (shuffle_loop 0 len xs v gs)")
    case (Inr ys)
    then show ?thesis unfolding eq by simp
  next
    case (Inl e)
    then have "e = Draws_Exhausted \<or> e = Undefined_Cast \<or> e = Undefined_Read"
      by (rule shuffle_loop_stop)
    moreover have "e \<noteq> Undefined_Read" "e \<noteq> Undefined_Cast"
      using shuffle_loop_defined[OF lv small, of xs gs] Inl by auto
    ultimately show ?thesis unfolding eq using Inl by simp
  qed
qed

lemma shuffle_example:
  "shuffle ''abc'' [0x8000000000000000, 0x8000000000000000, 0x8000000000000000 :: 64 word]
     = (Inr ''bca'', [])"
  by (simp add: shuffle_def shuffle_array_def next_in_range_64_half_3 next_in_range_64_half_2
      next_in_range_64_half_1)

text \<open>
  Claim C9 (\<^verbatim>\<open>shuffle\<close> leaves a permutation of the sequence). Whatever raw values
  are drawn: when the call returns, the sequence holds the same elements with
  the same multiplicities as before, in the same number. For a sequence of fewer
  than \<open>2 ^ 31\<close> elements every index drawn lies inside the vector, so the call
  returns unless the raw values run out.
\<close>

theorem shuffle_permutes:
  fixes gs :: "'a::len word list"
  shows "(\<forall>ys. fst (shuffle xs gs) = Inr ys \<longrightarrow> mset ys = mset xs \<and> length ys = length xs)
    \<and> (length xs < 2 ^ 31
        \<longrightarrow> fst (shuffle xs gs) = Inl Draws_Exhausted \<or> (\<exists>ys. fst (shuffle xs gs) = Inr ys))"
  using shuffle_mset[of xs gs] shuffle_defined[of xs gs] by blast

theorem shuffle_permutes_witness:
  "fst (shuffle ''abc'' [0x8000000000000000, 0x8000000000000000, 0x8000000000000000 :: 64 word])
     = Inr ''bca''
   \<and> mset ''bca'' = mset ''abc'' \<and> length ''bca'' = length ''abc''
   \<and> length ''abc'' < 2 ^ 31"
  using shuffle_permutes[of "''abc''"
      "[0x8000000000000000, 0x8000000000000000, 0x8000000000000000 :: 64 word]"]
    shuffle_example
  by simp

end
